theory Spec2Isabelle
  imports Main "HOL-Library.Word" "HOL-Library.Multiset"
begin

section \<open>Common values: errors and the ways a Go call can end\<close>

text \<open>
  A Go \<^verbatim>\<open>error\<close> value is either the distinguished \<^verbatim>\<open>maintner.ErrSplit\<close>, which
  \<^verbatim>\<open>Bot.Run\<close> compares against, or any other error, identified by its message.
\<close>

datatype error = ErrSplit | Error string

text \<open>
  A call either returns, panics, ends the process through \<^verbatim>\<open>log.Fatal\<close>, or waits on a
  channel on which nothing can be received in the state it runs in.
\<close>

datatype panic =
    UnknownState string
  | NilDereference
  | IndexOutOfRange
  | SendOnClosedChannel
  | CloseOfClosedChannel
  | CloseOfNilChannel

datatype 'a outcome = Return 'a | Panic panic | Fatal error | Blocked

section \<open>The spreadsheet fetcher (tasks.go)\<close>

subsection \<open>The string functions of the Go library\<close>

text \<open>
  \<^verbatim>\<open>strings.Contains\<close> looks for a contiguous run of bytes, whatever the bytes are, and
  is modelled in full. \<^verbatim>\<open>strings.ToLower\<close> and \<^verbatim>\<open>strings.TrimSpace\<close> follow the
  Unicode tables of the Go library (every letter with a lower case, every code point that
  is white space), which are not part of this repository. They are parameters of the
  model: a value of \<open>go_strings\<close> holds the two functions, and every definition and
  theorem below is for any such value.
\<close>

record go_strings =
  ToLower :: "string \<Rightarrow> string"
  TrimSpace :: "string \<Rightarrow> string"

fun HasPrefix :: "string \<Rightarrow> string \<Rightarrow> bool" where
  "HasPrefix s [] = True"
| "HasPrefix [] (p # ps) = False"
| "HasPrefix (c # s) (p # ps) = (c = p \<and> HasPrefix s ps)"

fun Contains :: "string \<Rightarrow> string \<Rightarrow> bool" where
  "Contains [] substr = (substr = [])"
| "Contains (c # s) substr = (HasPrefix (c # s) substr \<or> Contains s substr)"

subsection \<open>The CSV reader\<close>

text \<open>
  \<^verbatim>\<open>getUsernames\<close> reads its input through \<^verbatim>\<open>encoding/csv\<close>: one call of \<^verbatim>\<open>r.Read()\<close>
  for the header row, one call of \<^verbatim>\<open>r.ReadAll()\<close> for the rows after it. The file is
  represented by what these two calls give on it: \<open>ReadHeader\<close> is the result of
  \<^verbatim>\<open>r.Read()\<close>, \<open>ReadAll\<close> the result of the later \<^verbatim>\<open>r.ReadAll()\<close>. The reader of the
  library rejects a file whose rows differ in their number of fields; the model does not
  rely on it: a row too short for the selected column is an index panic, as in Go.
\<close>

record csv_reader =
  ReadHeader :: "error + string list"
  ReadAll :: "error + string list list"

text \<open>The first loop of \<^verbatim>\<open>getUsernames\<close>; \<open>None\<close> is the initial \<^verbatim>\<open>column = -1\<close>.\<close>

fun findColumn :: "go_strings \<Rightarrow> string list \<Rightarrow> string \<Rightarrow> nat \<Rightarrow> nat option" where
  "findColumn lib [] lowerColumnName i = None"
| "findColumn lib (cell # cells) lowerColumnName i =
     (let lower = ToLower lib cell in
      if Contains lower lowerColumnName then Some i
      else findColumn lib cells lowerColumnName (Suc i))"

text \<open>The second loop of \<^verbatim>\<open>getUsernames\<close>, with the slice \<^verbatim>\<open>emails\<close> as accumulator.\<close>

fun collectEmails ::
  "go_strings \<Rightarrow> string list list \<Rightarrow> nat \<Rightarrow> string list \<Rightarrow> string list outcome" where
  "collectEmails lib [] column emails = Return emails"
| "collectEmails lib (row # records) column emails =
     (if column < length row then
        (let email = TrimSpace lib (row ! column) in
         if email = [] then collectEmails lib records column emails
         else collectEmails lib records column (emails @ [email]))
      else Panic IndexOutOfRange)"

text \<open>
  \<open>getUsernames\<close> (lines 384 to 415). The error for a missing column is
  \<^verbatim>\<open>fmt.Errorf("no column named '%s'; quitting", columnName)\<close>.
\<close>

definition noColumnError :: "string \<Rightarrow> error" where
  "noColumnError columnName =
     Error (''no column named '' @ [CHR 0x27] @ columnName @ [CHR 0x27] @ ''; quitting'')"

definition getUsernames ::
  "go_strings \<Rightarrow> csv_reader \<Rightarrow> string \<Rightarrow> (error + string list) outcome" where
  "getUsernames lib file columnName =
     (case ReadHeader file of
        Inl err \<Rightarrow> Return (Inl err)
      | Inr record \<Rightarrow>
          (case findColumn lib record (ToLower lib columnName) 0 of
             None \<Rightarrow> Return (Inl (noColumnError columnName))
           | Some column \<Rightarrow>
               (case ReadAll file of
                  Inl err \<Rightarrow> Return (Inl err)
                | Inr records \<Rightarrow> map_outcome Inr (collectEmails lib records column []))))"

text \<open>
  \<open>LoadContributors\<close> (lines 422 to 436). \<^verbatim>\<open>downloadCSV\<close> is a network request;
  \<open>download\<close> stands for its result on a URL. The local \<^verbatim>\<open>columnName\<close> is computed
  and not used after that, as in the source.
\<close>

record SpreadsheetFetcher =
  sheetURL :: string
  ColumnName :: string

definition NewSpreadsheetFetcher :: "string \<Rightarrow> SpreadsheetFetcher" where
  "NewSpreadsheetFetcher url = \<lparr>sheetURL = url, ColumnName = ''GitHub Username''\<rparr>"

definition LoadContributors ::
  "go_strings \<Rightarrow> (string \<Rightarrow> error + csv_reader) \<Rightarrow> SpreadsheetFetcher \<Rightarrow>
   (error + string list) outcome" where
  "LoadContributors lib download s =
     (case download (sheetURL s) of
        Inl err \<Rightarrow> Return (Inl err)
      | Inr body \<Rightarrow>
          (let columnName = (if ColumnName s = [] then ''GitHub Username'' else ColumnName s)
           in getUsernames lib body (ColumnName s)))"

text \<open>
  Case-insensitive substring match of a header cell against the configured column name,
  in the words of the specification; the theorems relate \<open>findColumn\<close> to it.
\<close>

definition matchesColumn :: "go_strings \<Rightarrow> string \<Rightarrow> string \<Rightarrow> bool" where
  "matchesColumn lib columnName cell =
     Contains (ToLower lib cell) (ToLower lib columnName)"

section \<open>The GitHub mirror and the GitHub client\<close>

text \<open>
  The fields of \<^verbatim>\<open>maintner.GitHubIssue\<close> that the tasks read. \<open>UserLogin\<close> is
  \<^verbatim>\<open>gh.User.Login\<close> (the mirror's user pointer is taken as set), \<open>Labels\<close> the names of
  the issue's labels. \<^verbatim>\<open>Number\<close> is an \<^verbatim>\<open>int32\<close>; \<^verbatim>\<open>int(gh.Number)\<close> is \<open>sint\<close>.
\<close>

record github_issue =
  Number :: "32 word"
  NotExist :: bool
  PullRequest :: bool
  Closed :: bool
  UserLogin :: string
  Labels :: "string list"

text \<open>
  \<^verbatim>\<open>github.PullRequest\<close>: \<open>HeadSHA\<close> is \<^verbatim>\<open>pr.Head.SHA\<close>, a pointer that may be nil.
  \<^verbatim>\<open>pr.Head.GetSHA()\<close> reads it as the empty string then; \<^verbatim>\<open>*pr.Head.SHA\<close> panics.
  The tasks read nothing else of a pull request; what else it holds, for the caller's
  exemption predicate, is the extension \<open>'p\<close> of the record.
\<close>

record pull_request =
  HeadSHA :: "string option"

definition GetSHA :: "'p pull_request_scheme \<Rightarrow> string" where
  "GetSHA pr = (case HeadSHA pr of None \<Rightarrow> [] | Some sha \<Rightarrow> sha)"

text \<open>\<^verbatim>\<open>github.RepoStatus\<close>; every field is a pointer in Go.\<close>

record repo_status =
  State :: "string option"
  Context :: "string option"
  Description :: "string option"
  TargetURL :: "string option"

definition GetContext :: "repo_status \<Rightarrow> string" where
  "GetContext s = (case Context s of None \<Rightarrow> [] | Some x \<Rightarrow> x)"

definition GetState :: "repo_status \<Rightarrow> string" where
  "GetState s = (case State s of None \<Rightarrow> [] | Some x \<Rightarrow> x)"

text \<open>
  The calls a task makes on the GitHub client, in the order it makes them. Owner and
  repository name are the same in every call of a run and are left out.
\<close>

datatype call =
    PullRequests_Get int
  | PullRequests_ListFiles int
  | Repositories_ListStatuses string
  | Repositories_CreateStatus string repo_status
  | Issues_AddLabelsToIssue int "string list"
  | Issues_CreateComment int string

text \<open>
  What GitHub answers during one call of a task's \<^verbatim>\<open>Do\<close>, as a function of the
  call. \<open>'f\<close> is \<^verbatim>\<open>github.CommitFile\<close>, which only the caller's exemption predicate
  looks into.
\<close>

record ('p, 'f) github_client =
  Get :: "int \<Rightarrow> error + 'p pull_request_scheme"
  ListFiles :: "int \<Rightarrow> error + 'f list"
  ListStatuses :: "string \<Rightarrow> error + repo_status list"
  CreateStatus :: "string \<Rightarrow> repo_status \<Rightarrow> error + repo_status"
  AddLabelsToIssue :: "int \<Rightarrow> string list \<Rightarrow> error option"
  CreateComment :: "int \<Rightarrow> string \<Rightarrow> error option"

text \<open>
  \<^verbatim>\<open>repo.ForeachIssue\<close> of the mirror: the callback is applied to the issues in the
  order the mirror presents them, and the iteration ends at the first call that does not
  return nil. The callback's effects are a new task state and the calls it made.
\<close>

fun ForeachIssue ::
  "('s \<Rightarrow> github_issue \<Rightarrow> error option outcome \<times> 's \<times> call list) \<Rightarrow>
   's \<Rightarrow> github_issue list \<Rightarrow> error option outcome \<times> 's \<times> call list" where
  "ForeachIssue fn s [] = (Return None, s, [])"
| "ForeachIssue fn s (gi # gis) =
     (case fn s gi of
        (Return None, s', tr) \<Rightarrow>
          (case ForeachIssue fn s' gis of (r, s'', tr') \<Rightarrow> (r, s'', tr @ tr'))
      | (r, s', tr) \<Rightarrow> (r, s', tr))"

section \<open>The CLA checker (tasks.go)\<close>

text \<open>
  The channel \<^verbatim>\<open>contributorsLoaded\<close> is made by \<^verbatim>\<open>StartFetch\<close> with a buffer of one
  value. A receive takes a buffered value if there is one, returns at once on a closed
  channel, and waits otherwise. A send on a closed channel and a second close panic.
\<close>

record chan =
  buffered :: nat
  closed :: bool

definition make_chan :: chan where
  "make_chan = \<lparr>buffered = 0, closed = False\<rparr>"

text \<open>\<open>None\<close>: the receive waits. A nil channel (\<open>None\<close> as argument) waits forever.\<close>

definition recv :: "chan option \<Rightarrow> chan option option" where
  "recv ch =
     (case ch of
        None \<Rightarrow> None
      | Some q \<Rightarrow>
          if 0 < buffered q then Some (Some (q\<lparr>buffered := buffered q - 1\<rparr>))
          else if closed q then Some (Some q)
          else None)"

record ('p, 'f) CLAChecker =
  CanSkipCLA :: "('p pull_request_scheme \<Rightarrow> 'f list \<Rightarrow> bool) option"
  signedCLAPRs :: "32 word \<rightharpoonup> bool"
  claURL :: string
  contributorsLoaded :: "chan option"
  contributors :: "(string \<rightharpoonup> bool) option"

text \<open>
  The maps \<^verbatim>\<open>signedCLAPRs\<close> and \<^verbatim>\<open>knownContributors\<close> are made on first use, before any
  write; a nil map reads as an empty one, so both are plain maps here. The allowlist
  \<^verbatim>\<open>contributors\<close> is nil (\<open>None\<close>) until the first load has stored a map.
\<close>

definition NewCLAChecker :: "string \<Rightarrow> ('p, 'f) CLAChecker" where
  "NewCLAChecker url =
     \<lparr>CanSkipCLA = None, signedCLAPRs = Map.empty, claURL = url,
      contributorsLoaded = None, contributors = None\<rparr>"

text \<open>
  \<open>postStatus\<close> (lines 199 to 218): the status is built from the state string and
  posted; a state other than the three known ones is a panic, before any call.
\<close>

definition postStatus ::
  "('p, 'f) github_client \<Rightarrow> ('p, 'f) CLAChecker \<Rightarrow> string \<Rightarrow> string \<Rightarrow>
   (error + repo_status) outcome \<times> call list" where
  "postStatus ghc c sha state =
     (let sr = \<lparr>State = Some state, Context = Some ''cla-bot'',
                Description = None, TargetURL = None\<rparr>;
          create =
            (\<lambda>sr. (Return (CreateStatus ghc sha sr), [Repositories_CreateStatus sha sr]))
      in
      if state = ''failure'' then
        create (sr\<lparr>Description := Some ''Contributor has not signed the CLA'',
                   TargetURL := Some (claURL c)\<rparr>)
      else if state = ''unnecessary'' then
        create (sr\<lparr>Description := Some ''Changes do not require CLA submission'',
                   State := Some ''success''\<rparr>)
      else if state = ''success'' then
        create (sr\<lparr>Description := Some ''Contributor has signed the CLA''\<rparr>)
      else (Panic (UnknownState state), []))"

text \<open>
  Line 261: \<^verbatim>\<open>c.CanSkipCLA != nil && c.CanSkipCLA(pr, files)\<close>. The caller's predicate
  is taken to return.
\<close>

definition canSkipCLA ::
  "('p, 'f) CLAChecker \<Rightarrow> 'p pull_request_scheme \<Rightarrow> 'f list \<Rightarrow> bool" where
  "canSkipCLA c pr files = (case CanSkipCLA c of None \<Rightarrow> False | Some f \<Rightarrow> f pr files)"

text \<open>Line 247: \<^verbatim>\<open>_, ok := c.contributors[login]\<close>.\<close>

definition isContributor :: "('p, 'f) CLAChecker \<Rightarrow> string \<Rightarrow> bool" where
  "isContributor c login =
     (case contributors c of None \<Rightarrow> False | Some m \<Rightarrow> m login \<noteq> None)"

text \<open>
  The branch for an allowlisted or exempt author (lines 263 to 289), after the three reads.
  The loop over the statuses returns at the first status whose context is \<^verbatim>\<open>cla-bot\<close>.
  \<open>tr\<close> holds the calls made so far for this pull request. The \<^verbatim>\<open>log.Printf\<close> lines
  of the task, which only report, are not modelled.
\<close>

definition signedBranch ::
  "('p, 'f) github_client \<Rightarrow> ('p, 'f) CLAChecker \<Rightarrow> github_issue \<Rightarrow>
   'p pull_request_scheme \<Rightarrow> repo_status list \<Rightarrow> bool \<Rightarrow> call list \<Rightarrow>
   error option outcome \<times> ('p, 'f) CLAChecker \<times> call list" where
  "signedBranch ghc c gh pr statuses skip tr =
     (let postStatusState = (if skip then ''unnecessary'' else ''success'');
          post = (case HeadSHA pr of
                    None \<Rightarrow> (Panic NilDereference, c, tr)
                  | Some sha \<Rightarrow>
                      (case postStatus ghc c sha postStatusState of
                         (Return (Inl err), tr') \<Rightarrow> (Return (Some err), c, tr @ tr')
                       | (Return (Inr status), tr') \<Rightarrow> (Return None, c, tr @ tr')
                       | (Panic p, tr') \<Rightarrow> (Panic p, c, tr @ tr')
                       | (Fatal err, tr') \<Rightarrow> (Fatal err, c, tr @ tr')
                       | (Blocked, tr') \<Rightarrow> (Blocked, c, tr @ tr')))
      in
      case find (\<lambda>s. GetContext s = ''cla-bot'') statuses of
        Some s \<Rightarrow>
          if GetState s = ''success''
          then (Return None, c\<lparr>signedCLAPRs := (signedCLAPRs c)(Number gh \<mapsto> True)\<rparr>, tr)
          else post
      | None \<Rightarrow> post)"

text \<open>
  The branch for every other author (lines 291 to 307). A failure of the post ends the
  process: \<^verbatim>\<open>log.Fatal(err)\<close>.
\<close>

definition unsignedBranch ::
  "('p, 'f) github_client \<Rightarrow> ('p, 'f) CLAChecker \<Rightarrow> 'p pull_request_scheme \<Rightarrow>
   repo_status list \<Rightarrow> call list \<Rightarrow>
   error option outcome \<times> ('p, 'f) CLAChecker \<times> call list" where
  "unsignedBranch ghc c pr statuses tr =
     (let foundStatus =
            list_ex (\<lambda>s. GetContext s = ''cla-bot'' \<and> GetState s = ''failure'') statuses
      in
      if foundStatus then (Return None, c, tr)
      else
        (case HeadSHA pr of
           None \<Rightarrow> (Panic NilDereference, c, tr)
         | Some sha \<Rightarrow>
             (case postStatus ghc c sha ''failure'' of
                (Return (Inl err), tr') \<Rightarrow> (Fatal err, c, tr @ tr')
              | (Return (Inr status), tr') \<Rightarrow> (Return None, c, tr @ tr')
              | (Panic p, tr') \<Rightarrow> (Panic p, c, tr @ tr')
              | (Fatal err, tr') \<Rightarrow> (Fatal err, c, tr @ tr')
              | (Blocked, tr') \<Rightarrow> (Blocked, c, tr @ tr'))))"

text \<open>
  The function literal that \<^verbatim>\<open>CLAChecker.Do\<close> passes to \<^verbatim>\<open>ForeachIssue\<close> (lines 228
  to 308): the four early returns, the receive on \<^verbatim>\<open>contributorsLoaded\<close>, the lookup in
  the allowlist, the three reads, and one of the two branches.
\<close>

definition checkIssue ::
  "('p, 'f) github_client \<Rightarrow> ('p, 'f) CLAChecker \<Rightarrow> github_issue \<Rightarrow>
   error option outcome \<times> ('p, 'f) CLAChecker \<times> call list" where
  "checkIssue ghc c gh =
     (if NotExist gh then (Return None, c, [])
      else if \<not> PullRequest gh then (Return None, c, [])
      else if Closed gh then (Return None, c, [])
      else if signedCLAPRs c (Number gh) \<noteq> None then (Return None, c, [])
      else
        (case recv (contributorsLoaded c) of
           None \<Rightarrow> (Blocked, c, [])
         | Some ch \<Rightarrow>
             (let c = c\<lparr>contributorsLoaded := ch\<rparr>;
                  ok = isContributor c (UserLogin gh);
                  n = sint (Number gh)
              in
              case Get ghc n of
                Inl err \<Rightarrow> (Return (Some err), c, [PullRequests_Get n])
              | Inr pr \<Rightarrow>
                  (case ListFiles ghc n of
                     Inl err \<Rightarrow>
                       (Return (Some err), c, [PullRequests_Get n, PullRequests_ListFiles n])
                   | Inr files \<Rightarrow>
                       (let tr = [PullRequests_Get n, PullRequests_ListFiles n,
                                  Repositories_ListStatuses (GetSHA pr)]
                        in
                        case ListStatuses ghc (GetSHA pr) of
                          Inl err \<Rightarrow> (Return (Some err), c, tr)
                        | Inr statuses \<Rightarrow>
                            (let skip = canSkipCLA c pr files in
                             if ok \<or> skip then signedBranch ghc c gh pr statuses skip tr
                             else unsignedBranch ghc c pr statuses tr))))))"

text \<open>\<^verbatim>\<open>CLAChecker.Do\<close> (lines 223 to 310) returns what \<^verbatim>\<open>ForeachIssue\<close> returns.\<close>

definition CLAChecker_Do ::
  "('p, 'f) github_client \<Rightarrow> ('p, 'f) CLAChecker \<Rightarrow> github_issue list \<Rightarrow>
   error option outcome \<times> ('p, 'f) CLAChecker \<times> call list" where
  "CLAChecker_Do ghc c issues = ForeachIssue (checkIssue ghc) c issues"

subsection \<open>The refresh loop and the checker, side by side\<close>

text \<open>
  \<^verbatim>\<open>StartFetch\<close> makes the channel and starts \<^verbatim>\<open>loadContributors\<close> in a goroutine of
  its own, which shares the fields \<^verbatim>\<open>contributors\<close> (under the mutex) and
  \<^verbatim>\<open>contributorsLoaded\<close> with \<^verbatim>\<open>Do\<close>. A send waits while the buffer is full.
\<close>

definition send :: "chan option \<Rightarrow> chan option outcome" where
  "send ch =
     (case ch of
        None \<Rightarrow> Blocked
      | Some q \<Rightarrow>
          if closed q then Panic SendOnClosedChannel
          else if buffered q < 1 then Return (Some (q\<lparr>buffered := buffered q + 1\<rparr>))
          else Blocked)"

definition close_chan :: "chan option \<Rightarrow> chan option outcome" where
  "close_chan ch =
     (case ch of
        None \<Rightarrow> Panic CloseOfNilChannel
      | Some q \<Rightarrow>
          if closed q then Panic CloseOfClosedChannel
          else Return (Some (q\<lparr>closed := True\<rparr>)))"

text \<open>Lines 174 to 177: the map built from the fetched names.\<close>

definition contributorMap :: "string list \<Rightarrow> (string \<rightharpoonup> bool)" where
  "contributorMap names = fold (\<lambda>name m. m(name \<mapsto> True)) names Map.empty"

text \<open>
  Where the loader stands: before the fetch of line 169, before the send of line 183,
  before the close of line 184, before the \<^verbatim>\<open>select\<close> of line 188, returned, or ended
  by a panic. Where the checker stands: before the receive of line 245 or before the read
  of line 247.
\<close>

datatype loader_pc = AtFetch | AtSend | AtClose | AtSelect | Exited | Crashed panic

datatype checker_pc = AtReceive | AtRead

text \<open>
  What has happened so far, in order. \<open>Read_allowlist loaded\<close> is a read of the
  allowlist by the checker; \<open>loaded\<close> tells whether the map it read was one stored by a
  load, rather than the nil map of a new checker.
\<close>

datatype event =
    Fetch_failed error
  | Stored "string list"
  | Sent
  | Closed_channel
  | Received
  | Read_allowlist bool

record ('p, 'f) system =
  checker :: "('p, 'f) CLAChecker"
  loader_at :: loader_pc
  sentContributors :: bool
  checker_at :: checker_pc
  history :: "event list"

definition StartFetch :: "('p, 'f) CLAChecker \<Rightarrow> ('p, 'f) system" where
  "StartFetch c =
     \<lparr>checker = c\<lparr>contributorsLoaded := Some make_chan\<rparr>, loader_at = AtFetch,
      sentContributors = False, checker_at = AtReceive, history = []\<rparr>"

text \<open>
  One step of \<^verbatim>\<open>loadContributors\<close>. \<open>fetched\<close> is the result of
  \<^verbatim>\<open>LoadContributors\<close> when the step is the fetch, \<open>done\<close> tells whether the context
  is cancelled when the step is the \<^verbatim>\<open>select\<close>. After a failed fetch the loop waits for
  the next tick and fetches again. A send that has to wait changes nothing.
\<close>

definition loader_step ::
  "error + string list \<Rightarrow> bool \<Rightarrow> ('p, 'f) system \<Rightarrow> ('p, 'f) system" where
  "loader_step fetched done s =
     (case loader_at s of
        AtFetch \<Rightarrow>
          (case fetched of
             Inl err \<Rightarrow> s\<lparr>history := history s @ [Fetch_failed err]\<rparr>
           | Inr names \<Rightarrow>
               s\<lparr>checker := (checker s)\<lparr>contributors := Some (contributorMap names)\<rparr>,
                 loader_at := (if \<not> sentContributors s then AtSend else AtSelect),
                 history := history s @ [Stored names]\<rparr>)
      | AtSend \<Rightarrow>
          (case send (contributorsLoaded (checker s)) of
             Return ch \<Rightarrow>
               s\<lparr>checker := (checker s)\<lparr>contributorsLoaded := ch\<rparr>,
                 loader_at := AtClose, history := history s @ [Sent]\<rparr>
           | Panic p \<Rightarrow> s\<lparr>loader_at := Crashed p\<rparr>
           | Fatal e \<Rightarrow> s
           | Blocked \<Rightarrow> s)
      | AtClose \<Rightarrow>
          (case close_chan (contributorsLoaded (checker s)) of
             Return ch \<Rightarrow>
               s\<lparr>checker := (checker s)\<lparr>contributorsLoaded := ch\<rparr>,
                 loader_at := AtSelect, sentContributors := True,
                 history := history s @ [Closed_channel]\<rparr>
           | Panic p \<Rightarrow> s\<lparr>loader_at := Crashed p\<rparr>
           | Fatal e \<Rightarrow> s
           | Blocked \<Rightarrow> s)
      | AtSelect \<Rightarrow> s\<lparr>loader_at := (if done then Exited else AtFetch)\<rparr>
      | Exited \<Rightarrow> s
      | Crashed p \<Rightarrow> s)"

text \<open>
  One step of the checker on a pull request that needs the allowlist: the receive of line
  245, which changes nothing while it has to wait, then the read of line 247.
\<close>

definition checker_step :: "('p, 'f) system \<Rightarrow> ('p, 'f) system" where
  "checker_step s =
     (case checker_at s of
        AtReceive \<Rightarrow>
          (case recv (contributorsLoaded (checker s)) of
             None \<Rightarrow> s
           | Some ch \<Rightarrow>
               s\<lparr>checker := (checker s)\<lparr>contributorsLoaded := ch\<rparr>,
                 checker_at := AtRead, history := history s @ [Received]\<rparr>)
      | AtRead \<Rightarrow>
          s\<lparr>checker_at := AtReceive,
            history := history s @ [Read_allowlist (contributors (checker s) \<noteq> None)]\<rparr>)"

text \<open>A schedule says which goroutine takes the next step, and with which input.\<close>

datatype action = Loader "error + string list" bool | Checker

fun run :: "action list \<Rightarrow> ('p, 'f) system \<Rightarrow> ('p, 'f) system" where
  "run [] s = s"
| "run (Loader fetched done # acts) s = run acts (loader_step fetched done s)"
| "run (Checker # acts) s = run acts (checker_step s)"

section \<open>The congratulator (tasks.go)\<close>

text \<open>
  \<open>message\<close> is the parsed template: \<^verbatim>\<open>c.message.Execute(buf, cdata)\<close> on a user name
  gives the rendered text or an error.
\<close>

record Congratulator =
  message :: "string \<Rightarrow> error + string"
  knownContributors :: "string \<rightharpoonup> bool"

text \<open>
  The function literal of lines 75 to 94. The map \<^verbatim>\<open>prs\<close> is an association list with
  one entry for a user name: an entry is added only for a name that has none.
\<close>

definition scanIssue ::
  "(string \<rightharpoonup> bool) \<times> (string \<times> github_issue) list \<Rightarrow> github_issue \<Rightarrow>
   (string \<rightharpoonup> bool) \<times> (string \<times> github_issue) list" where
  "scanIssue s gh =
     (case s of (known, prs) \<Rightarrow>
        if NotExist gh \<or> \<not> PullRequest gh then (known, prs)
        else
          (let username = UserLogin gh in
           if known username = Some True then (known, prs)
           else if map_of prs username \<noteq> None
           then (known(username \<mapsto> True), filter (\<lambda>p. fst p \<noteq> username) prs)
           else (known, prs @ [(username, gh)])))"

text \<open>
  The loop of lines 96 to 135 over the entries of \<^verbatim>\<open>prs\<close>, in the order the map
  iteration yields them. The first component is \<open>Some err\<close> for \<^verbatim>\<open>return err\<close>, and
  \<open>None\<close> when the loop runs to its end.
\<close>

fun welcomeLoop ::
  "('p, 'f) github_client \<Rightarrow> (string \<Rightarrow> error + string) \<Rightarrow> (string \<rightharpoonup> bool) \<Rightarrow>
   (string \<times> github_issue) list \<Rightarrow> error option \<times> (string \<rightharpoonup> bool) \<times> call list" where
  "welcomeLoop ghc msg known [] = (None, known, [])"
| "welcomeLoop ghc msg known ((username, ghIssue) # rest) =
     (if Closed ghIssue then welcomeLoop ghc msg (known(username \<mapsto> True)) rest
      else
        (let hasNewContributorLabel =
               list_ex (\<lambda>name. name = ''new-contributor'') (Labels ghIssue)
         in
         if hasNewContributorLabel then welcomeLoop ghc msg (known(username \<mapsto> True)) rest
         else
           (case msg (UserLogin ghIssue) of
              Inl err \<Rightarrow> (Some err, known, [])
            | Inr body \<Rightarrow>
                (let n = sint (Number ghIssue);
                     label = Issues_AddLabelsToIssue n [''new-contributor''];
                     comment = Issues_CreateComment n body
                 in
                 case AddLabelsToIssue ghc n [''new-contributor''] of
                   Some err \<Rightarrow> (Some err, known, [label])
                 | None \<Rightarrow>
                     (case CreateComment ghc n body of
                        Some err \<Rightarrow> (Some err, known, [label, comment])
                      | None \<Rightarrow>
                          (case welcomeLoop ghc msg (known(username \<mapsto> True)) rest of
                             (r, known', tr) \<Rightarrow> (r, known', label # comment # tr)))))))"

text \<open>
  The first half of \<^verbatim>\<open>Congratulator.Do\<close>: \<^verbatim>\<open>ForeachIssue\<close> with the function literal,
  from the cache as it stands and an empty \<^verbatim>\<open>prs\<close>. The literal returns nil and makes no
  call to GitHub.
\<close>

definition scan ::
  "(string \<rightharpoonup> bool) \<Rightarrow> github_issue list \<Rightarrow>
   error option outcome \<times> ((string \<rightharpoonup> bool) \<times> (string \<times> github_issue) list) \<times> call list" where
  "scan known issues =
     ForeachIssue (\<lambda>s gh. (Return None, scanIssue s gh, [])) (known, []) issues"

text \<open>
  \<^verbatim>\<open>Congratulator.Do\<close>. Go iterates over a map in an order of its own choosing;
  \<open>order\<close> is that choice. The value returned after the loop is the \<^verbatim>\<open>err\<close> of
  \<^verbatim>\<open>ForeachIssue\<close>.
\<close>

definition Congratulator_Do ::
  "((string \<times> github_issue) list \<Rightarrow> (string \<times> github_issue) list) \<Rightarrow>
   ('p, 'f) github_client \<Rightarrow> Congratulator \<Rightarrow> github_issue list \<Rightarrow>
   error option outcome \<times> Congratulator \<times> call list" where
  "Congratulator_Do order ghc c issues =
     (case scan (knownContributors c) issues of
        (err, (known, prs), _) \<Rightarrow>
          (case welcomeLoop ghc (message c) known (order prs) of
             (Some e, known', tr) \<Rightarrow> (Return (Some e), c\<lparr>knownContributors := known'\<rparr>, tr)
           | (None, known', tr) \<Rightarrow> (err, c\<lparr>knownContributors := known'\<rparr>, tr)))"

text \<open>An iteration order lists the entries of the map, each once.\<close>

definition reordering :: "('a list \<Rightarrow> 'a list) \<Rightarrow> bool" where
  "reordering order = (\<forall>xs. mset (order xs) = mset xs)"

section \<open>The bot loop (maintainerbot.go)\<close>

text \<open>
  A task is its \<^verbatim>\<open>Do\<close>: it acts on the world \<open>'w\<close> (the mirror, GitHub, the task's own
  fields) and returns an error or nil, unless it does not return.
\<close>

type_synonym 'w task = "'w \<Rightarrow> error option outcome \<times> 'w"

record 'w Bot =
  owner :: string
  repoName :: string
  tasks :: "'w task list"

definition RegisterTask :: "'w Bot \<Rightarrow> 'w task \<Rightarrow> 'w Bot" where
  "RegisterTask b t = b\<lparr>tasks := tasks b @ [t]\<rparr>"

text \<open>The loop of \<^verbatim>\<open>doTasks\<close> over \<^verbatim>\<open>b.tasks\<close> (lines 73 to 79).\<close>

fun doTasksFrom :: "'w task list \<Rightarrow> 'w \<Rightarrow> error option outcome \<times> 'w" where
  "doTasksFrom [] w = (Return None, w)"
| "doTasksFrom (t # ts) w =
     (case t w of
        (Return None, w') \<Rightarrow> doTasksFrom ts w'
      | (r, w') \<Rightarrow> (r, w'))"

definition doTasks :: "'w Bot \<Rightarrow> 'w \<Rightarrow> error option outcome \<times> 'w" where
  "doTasks b w = doTasksFrom (tasks b) w"

text \<open>
  What \<^verbatim>\<open>Run\<close> and \<^verbatim>\<open>initCorpus\<close> write to the log, and the mirror library as they use
  it: \<open>Initialize\<close> is \<^verbatim>\<open>corpus.Initialize\<close>, \<open>FindRepo\<close> tells whether
  \<^verbatim>\<open>corpus.GitHub().Repo(owner, repoName)\<close> is not nil, \<open>Sync\<close> is one call of
  \<^verbatim>\<open>corpus.Sync\<close>.
\<close>

datatype log_entry =
    LogError error
  | LogRan
  | LogLoaded
  | LogOutOfSync
  | LogSyncSleep error
  | LogGotUpdate

record 'w corpus_env =
  Initialize :: "'w \<Rightarrow> error option \<times> 'w"
  FindRepo :: "'w \<Rightarrow> bool"
  Sync :: "'w \<Rightarrow> error option \<times> 'w"

definition initCorpus ::
  "'w corpus_env \<Rightarrow> 'w Bot \<Rightarrow> 'w \<times> log_entry list \<Rightarrow> ('w \<times> log_entry list) outcome" where
  "initCorpus env b st =
     (case Initialize env (fst st) of
        (Some err, w') \<Rightarrow> Fatal err
      | (None, w') \<Rightarrow>
          if FindRepo env w' then Return (w', snd st @ [LogLoaded])
          else Fatal (Error (''Failed to find '' @ owner b @ ''/'' @ repoName b @
                             '' repo in Corpus.'')))"

text \<open>
  The inner loop of \<^verbatim>\<open>Run\<close> (lines 97 to 112). It retries for as long as
  \<^verbatim>\<open>corpus.Sync\<close> fails with an error other than \<^verbatim>\<open>ErrSplit\<close>; \<open>None\<close> is the loop that
  never ends.
\<close>

partial_function (option) syncLoop ::
  "'w corpus_env \<Rightarrow> 'w Bot \<Rightarrow> 'w \<times> log_entry list \<Rightarrow> ('w \<times> log_entry list) outcome option" where
  "syncLoop env b st =
     (case Sync env (fst st) of
        (None, w') \<Rightarrow> Some (Return (w', snd st @ [LogGotUpdate]))
      | (Some err, w') \<Rightarrow>
          if err = ErrSplit then
            (case initCorpus env b (w', snd st @ [LogOutOfSync]) of
               Return st' \<Rightarrow> Some (Return (fst st', snd st' @ [LogGotUpdate]))
             | Panic p \<Rightarrow> Some (Panic p)
             | Fatal e \<Rightarrow> Some (Fatal e)
             | Blocked \<Rightarrow> Some Blocked)
          else syncLoop env b (w', snd st @ [LogSyncSleep err]))"

declare syncLoop.simps [code]

text \<open>
  One pass of the outer loop of \<^verbatim>\<open>Run\<close> up to the synchronisation: the tasks, then the
  two log lines. A task that does not return ends the pass with its outcome.
\<close>

definition runTasks ::
  "'w Bot \<Rightarrow> 'w \<times> log_entry list \<Rightarrow> ('w \<times> log_entry list) outcome" where
  "runTasks b st =
     (case doTasks b (fst st) of
        (Return None, w') \<Rightarrow> Return (w', snd st @ [LogRan])
      | (Return (Some err), w') \<Rightarrow> Return (w', snd st @ [LogError err, LogRan])
      | (Panic p, w') \<Rightarrow> Panic p
      | (Fatal e, w') \<Rightarrow> Fatal e
      | (Blocked, w') \<Rightarrow> Blocked)"

text \<open>
  \<^verbatim>\<open>Run\<close> has no exit of its own. \<open>runTicks n\<close> is the outer loop for \<open>n\<close> ticks:
  \<open>Some (Return st)\<close> is the state after them, another outcome the end of the process
  or a wait with no end, \<open>None\<close> an inner loop that never ends.
\<close>

fun runTicks ::
  "nat \<Rightarrow> 'w corpus_env \<Rightarrow> 'w Bot \<Rightarrow> 'w \<times> log_entry list \<Rightarrow>
   ('w \<times> log_entry list) outcome option" where
  "runTicks 0 env b st = Some (Return st)"
| "runTicks (Suc n) env b st =
     (case runTasks b st of
        Return st' \<Rightarrow>
          (case syncLoop env b st' of
             Some (Return st'') \<Rightarrow> runTicks n env b st''
           | other \<Rightarrow> other)
      | Panic p \<Rightarrow> Some (Panic p)
      | Fatal e \<Rightarrow> Some (Fatal e)
      | Blocked \<Rightarrow> Some Blocked)"

definition Run ::
  "nat \<Rightarrow> 'w corpus_env \<Rightarrow> 'w Bot \<Rightarrow> 'w \<Rightarrow> ('w \<times> log_entry list) outcome option" where
  "Run n env b w =
     (case initCorpus env b (w, []) of
        Return st \<Rightarrow> runTicks n env b st
      | Panic p \<Rightarrow> Some (Panic p)
      | Fatal e \<Rightarrow> Some (Fatal e)
      | Blocked \<Rightarrow> Some Blocked)"

section \<open>Notions used in the statements and proofs\<close>

text \<open>
  A status as \<open>postStatus\<close> builds it: a state GitHub knows, the context of the bot, a
  description.
\<close>

definition built :: "repo_status \<Rightarrow> bool" where
  "built sr = ((State sr = Some ''success'' \<or> State sr = Some ''failure'') \<and>
     Context sr = Some ''cla-bot'' \<and> Description sr \<noteq> None)"

text \<open>
  A live pull request of an author, and the pull request that a label-add or a
  comment-post is made for.
\<close>

definition livePR :: "string \<Rightarrow> github_issue \<Rightarrow> bool" where
  "livePR author gi = (\<not> NotExist gi \<and> PullRequest gi \<and> UserLogin gi = author)"

fun welcomed :: "call \<Rightarrow> int option" where
  "welcomed (Issues_AddLabelsToIssue n labels) = Some n"
| "welcomed (Issues_CreateComment n body) = Some n"
| "welcomed other = None"

text \<open>
  What holds of the cache and of \<^verbatim>\<open>prs\<close> once \<open>scanIssue\<close> has seen the issues
  \<open>seen\<close>, from the cache \<open>known0\<close>: an author who is not known has at most one live
  pull request among them, and has an entry in \<^verbatim>\<open>prs\<close> when there is one.
\<close>

definition scanned ::
  "(string \<rightharpoonup> bool) \<Rightarrow> github_issue list \<Rightarrow>
   (string \<rightharpoonup> bool) \<times> (string \<times> github_issue) list \<Rightarrow> bool" where
  "scanned known0 seen s =
     (case s of (known, prs) \<Rightarrow>
        distinct (map fst prs) \<and>
        (\<forall>(u, gi) \<in> set prs. gi \<in> set seen \<and> UserLogin gi = u \<and> known u \<noteq> Some True) \<and>
        (\<forall>u. known0 u = Some True \<longrightarrow> known u = Some True) \<and>
        (\<forall>u. known u \<noteq> Some True \<longrightarrow>
           (if u \<in> fst ` set prs then length (filter (livePR u) seen) = 1
            else length (filter (livePR u) seen) = 0)))"

text \<open>
  The histories of the three stages of the refresh loop: nothing loaded yet, the first
  allowlist stored, the signal sent right after it and never again. In the last stage the
  checker has read no allowlist but a loaded one.
\<close>

definition unloaded :: "event list \<Rightarrow> bool" where
  "unloaded h = (\<exists>errs. h = map Fetch_failed errs)"

definition loaded_once :: "event list \<Rightarrow> bool" where
  "loaded_once h = (\<exists>errs names. h = map Fetch_failed errs @ [Stored names])"

definition signalled :: "event list \<Rightarrow> bool" where
  "signalled h =
     (\<exists>errs names rest. h = map Fetch_failed errs @ Stored names # Sent # rest \<and>
        Sent \<notin> set rest \<and> Read_allowlist False \<notin> set rest)"

text \<open>What holds of the two goroutines and the fields they share, at every moment.\<close>

definition stages :: "('p, 'f) system \<Rightarrow> bool" where
  "stages s =
     (\<exists>q. contributorsLoaded (checker s) = Some q \<and> buffered q \<le> 1 \<and>
        (case loader_at s of
           AtFetch \<Rightarrow>
             if sentContributors s
             then contributors (checker s) \<noteq> None \<and> closed q \<and> signalled (history s)
             else contributors (checker s) = None \<and> buffered q = 0 \<and> \<not> closed q \<and>
                  checker_at s = AtReceive \<and> unloaded (history s)
         | AtSend \<Rightarrow>
             \<not> sentContributors s \<and> contributors (checker s) \<noteq> None \<and> buffered q = 0 \<and>
             \<not> closed q \<and> checker_at s = AtReceive \<and> loaded_once (history s)
         | AtClose \<Rightarrow>
             \<not> sentContributors s \<and> contributors (checker s) \<noteq> None \<and> \<not> closed q \<and>
             signalled (history s)
         | AtSelect \<Rightarrow>
             sentContributors s \<and> contributors (checker s) \<noteq> None \<and> closed q \<and>
             signalled (history s)
         | Exited \<Rightarrow>
             sentContributors s \<and> contributors (checker s) \<noteq> None \<and> closed q \<and>
             signalled (history s)
         | Crashed p \<Rightarrow> False))"

section \<open>Inputs for the worked instances\<close>

text \<open>
  The two library functions as they act on ASCII text, for the worked instances, whose
  strings are ASCII: \<^verbatim>\<open>ToLower\<close> maps \<^verbatim>\<open>A\<close>..\<^verbatim>\<open>Z\<close> to \<^verbatim>\<open>a\<close>..\<^verbatim>\<open>z\<close>, and
  \<^verbatim>\<open>TrimSpace\<close> removes leading and trailing tab, line feed, vertical tab, form feed,
  carriage return and space.
\<close>

definition lowerChar :: "char \<Rightarrow> char" where
  "lowerChar c =
     (let n = (of_char c :: nat) in if 65 \<le> n \<and> n \<le> 90 then char_of (n + 32) else c)"

definition isSpace :: "char \<Rightarrow> bool" where
  "isSpace c = (let n = (of_char c :: nat) in (9 \<le> n \<and> n \<le> 13) \<or> n = 32)"

definition ascii :: go_strings where
  "ascii =
     \<lparr>ToLower = map lowerChar,
      TrimSpace = (\<lambda>s. rev (dropWhile isSpace (rev (dropWhile isSpace s))))\<rparr>"

text \<open>The file of the package's own test, with blanks around the last user name.\<close>

definition csvFile :: csv_reader where
  "csvFile =
     \<lparr>ReadHeader =
        Inr [''Name'', ''Em'', ''Address'', ''Country'', ''Phone Number'', ''Github Username''],
      ReadAll =
        Inr [[''Kevin Burke'', ''kevin@burke.services'', ''123 Main St'', ''USA'',
              ''925-555-1234'', ''kevinburke''],
             [''Kevin Foo'', ''anotheremail@burke.services'', ''123 Main St'', ''USA'',
              ''925-555-1234'', ''kevinburke_test''],
             [''TestUser'', ''test@example.com'', ''123 Main St'', ''USA'',
              ''925-555-1234'', '' test '']]\<rparr>"

text \<open>A sheet whose user names are in its second column.\<close>

definition sheet :: csv_reader where
  "sheet =
     \<lparr>ReadHeader = Inr [''Name'', ''GitHub Username''],
      ReadAll = Inr [[''Kevin'', ''kevinburke'']]\<rparr>"

text \<open>
  An open pull request, a closed issue, a checker whose allowlist has been loaded from the
  given names, and a GitHub on which every read succeeds: the pull request's head is
  \<^verbatim>\<open>abc\<close>, its statuses are the given ones, and a status post fails with the given
  error, if one is given.
\<close>

definition openPullRequest :: "32 word \<Rightarrow> string \<Rightarrow> github_issue" where
  "openPullRequest n login =
     \<lparr>Number = n, NotExist = False, PullRequest = True, Closed = False,
      UserLogin = login, Labels = []\<rparr>"

definition closedIssue :: "32 word \<Rightarrow> string \<Rightarrow> github_issue" where
  "closedIssue n login =
     \<lparr>Number = n, NotExist = False, PullRequest = False, Closed = True,
      UserLogin = login, Labels = []\<rparr>"

definition loadedChecker :: "string list \<Rightarrow> (unit, unit) CLAChecker" where
  "loadedChecker names =
     (NewCLAChecker ''https://example.com/cla'')
       \<lparr>contributorsLoaded := Some \<lparr>buffered = 0, closed = True\<rparr>,
        contributors := Some (contributorMap names)\<rparr>"

definition github :: "repo_status list \<Rightarrow> error option \<Rightarrow> (unit, unit) github_client" where
  "github statuses failure =
     \<lparr>Get = (\<lambda>n. Inr \<lparr>HeadSHA = Some ''abc''\<rparr>),
      ListFiles = (\<lambda>n. Inr []),
      ListStatuses = (\<lambda>sha. Inr statuses),
      CreateStatus = (\<lambda>sha sr. case failure of None \<Rightarrow> Inr sr | Some err \<Rightarrow> Inl err),
      AddLabelsToIssue = (\<lambda>n labels. None),
      CreateComment = (\<lambda>n body. None)\<rparr>"

definition claStatus :: "string \<Rightarrow> repo_status" where
  "claStatus state =
     \<lparr>State = Some state, Context = Some ''cla-bot'', Description = None, TargetURL = None\<rparr>"

text \<open>
  The congratulator of the package's example, a GitHub on which every comment-post fails,
  and one on which the comment-post fails for one issue number only.
\<close>

definition congratulator :: Congratulator where
  "congratulator =
     \<lparr>message = (\<lambda>username. Inr (''Congrats on your first PR, @'' @ username @ ''!'')),
      knownContributors = Map.empty\<rparr>"

definition commentsDown :: "(unit, unit) github_client" where
  "commentsDown =
     (github [] None)\<lparr>CreateComment := (\<lambda>n body. Some (Error ''503 Service Unavailable''))\<rparr>"

definition commentsDownFor :: "int \<Rightarrow> (unit, unit) github_client" where
  "commentsDownFor n =
     (github [] None)
       \<lparr>CreateComment :=
          (\<lambda>m body. if m = n then Some (Error ''503 Service Unavailable'') else None)\<rparr>"

text \<open>
  A task that writes its number into the world, a list of the tasks that have run, and
  returns the given result; and a mirror library whose calls all succeed.
\<close>

definition recordingTask :: "nat \<Rightarrow> error option \<Rightarrow> nat list task" where
  "recordingTask k result = (\<lambda>w. (Return result, w @ [k]))"

definition quietCorpus :: "nat list corpus_env" where
  "quietCorpus =
     \<lparr>Initialize = (\<lambda>w. (None, w)), FindRepo = (\<lambda>w. True), Sync = (\<lambda>w. (None, w))\<rparr>"

definition railsBot :: "nat list task list \<Rightarrow> nat list Bot" where
  "railsBot ts = \<lparr>owner = ''rails'', repoName = ''rails'', tasks = ts\<rparr>"

text \<open>
  A schedule in which the first fetch fails, the second and a later one succeed, and the
  checker takes its turns in between.
\<close>

definition schedule :: "action list" where
  "schedule =
     [Checker, Loader (Inl (Error ''timeout'')) False, Checker,
      Loader (Inr [''alice'']) False, Checker, Loader (Inl ErrSplit) False, Checker,
      Checker, Loader (Inl ErrSplit) False, Checker, Loader (Inl ErrSplit) False,
      Loader (Inr [''alice'', ''bob'']) False, Loader (Inr []) False, Checker, Checker]"

section \<open>Properties of the spreadsheet fetcher\<close>

lemma findColumn_None_iff:
  "findColumn lib cells low i = None \<longleftrightarrow>
   (\<forall>cell\<in>set cells. \<not> Contains (ToLower lib cell) low)"
  by (induction cells arbitrary: i) (auto simp: Let_def)

lemma findColumn_first:
  "c < length cells \<Longrightarrow> Contains (ToLower lib (cells ! c)) low \<Longrightarrow>
   \<forall>j<c. \<not> Contains (ToLower lib (cells ! j)) low \<Longrightarrow>
   findColumn lib cells low i = Some (i + c)"
proof (induction cells arbitrary: i c)
  case Nil
  then show ?case by simp
next
  case (Cons cell cells)
  show ?case
  proof (cases c)
    case 0
    with Cons.prems show ?thesis by simp
  next
    case (Suc d)
    from Cons.prems Suc have "\<not> Contains (ToLower lib cell) low" by auto
    moreover have "findColumn lib cells low (Suc i) = Some (Suc i + d)"
      using Cons.prems Suc by (intro Cons.IH) auto
    ultimately show ?thesis using Suc by (simp add: Let_def)
  qed
qed

lemma collectEmails_eq:
  "\<forall>row\<in>set records. column < length row \<Longrightarrow>
   collectEmails lib records column acc =
     Return (acc @ filter (\<lambda>e. e \<noteq> [])
                     (map (\<lambda>row. TrimSpace lib (row ! column)) records))"
  by (induction records arbitrary: acc) (auto simp: Let_def)

text \<open>
  Claim C5, for any library functions \<open>ToLower\<close> and \<open>TrimSpace\<close>. Let the
  header row be read. If \<open>c\<close> is the first column whose header cell contains the
  configured name, case-insensitively, and the rows after the header are read, each with as
  many fields as the header (which the reader of the library sees to), then
  \<open>getUsernames\<close> returns the trimmed cells of column \<open>c\<close> that are not empty, in
  row order, duplicates included. If no header cell contains the name, it returns the
  error that names the column, and no list.
\<close>

theorem getUsernames_first_matching_column:
  "ReadHeader file = Inr header \<Longrightarrow>
   ((c < length header \<and> matchesColumn lib columnName (header ! c) \<and>
     (\<forall>j<c. \<not> matchesColumn lib columnName (header ! j)) \<and>
     ReadAll file = Inr records \<and> (\<forall>row\<in>set records. length row = length header)
     \<longrightarrow> getUsernames lib file columnName =
           Return (Inr (filter (\<lambda>e. e \<noteq> []) (map (\<lambda>row. TrimSpace lib (row ! c)) records))))
    \<and>
    ((\<forall>cell\<in>set header. \<not> matchesColumn lib columnName cell)
     \<longrightarrow> getUsernames lib file columnName =
           Return (Inl (Error (''no column named '' @ [CHR 0x27] @ columnName @
                               [CHR 0x27] @ ''; quitting'')))))"
proof (intro conjI impI)
  assume h: "ReadHeader file = Inr header"
  assume a: "c < length header \<and> matchesColumn lib columnName (header ! c) \<and>
     (\<forall>j<c. \<not> matchesColumn lib columnName (header ! j)) \<and>
     ReadAll file = Inr records \<and> (\<forall>row\<in>set records. length row = length header)"
  then have "findColumn lib header (ToLower lib columnName) 0 = Some (0 + c)"
    by (intro findColumn_first) (auto simp: matchesColumn_def)
  moreover have "\<forall>row\<in>set records. c < length row" using a by auto
  ultimately show "getUsernames lib file columnName =
           Return (Inr (filter (\<lambda>e. e \<noteq> []) (map (\<lambda>row. TrimSpace lib (row ! c)) records)))"
    using h a by (simp add: getUsernames_def collectEmails_eq)
next
  assume h: "ReadHeader file = Inr header"
  assume "\<forall>cell\<in>set header. \<not> matchesColumn lib columnName cell"
  then have "findColumn lib header (ToLower lib columnName) 0 = None"
    by (simp add: findColumn_None_iff matchesColumn_def)
  then show "getUsernames lib file columnName =
           Return (Inl (Error (''no column named '' @ [CHR 0x27] @ columnName @
                               [CHR 0x27] @ ''; quitting'')))"
    using h by (simp add: getUsernames_def noColumnError_def)
qed

text \<open>
  On the file of the package's test, which is ASCII, the name \<^verbatim>\<open>github username\<close>
  selects the sixth column and gives the three user names, the last one trimmed; the name
  \<^verbatim>\<open>email\<close> matches no header cell and gives the error.
\<close>

theorem getUsernames_first_matching_column_witness:
  "getUsernames ascii csvFile ''github username'' =
     Return (Inr [''kevinburke'', ''kevinburke_test'', ''test'']) \<and>
   getUsernames ascii csvFile ''email'' =
     Return (Inl (Error (''no column named '' @ [CHR 0x27] @ ''email'' @ [CHR 0x27] @
                         ''; quitting'')))"
proof -
  let ?header = "[''Name'', ''Em'', ''Address'', ''Country'', ''Phone Number'', ''Github Username'']"
  let ?records = "[[''Kevin Burke'', ''kevin@burke.services'', ''123 Main St'', ''USA'',
              ''925-555-1234'', ''kevinburke''],
             [''Kevin Foo'', ''anotheremail@burke.services'', ''123 Main St'', ''USA'',
              ''925-555-1234'', ''kevinburke_test''],
             [''TestUser'', ''test@example.com'', ''123 Main St'', ''USA'',
              ''925-555-1234'', '' test '']]"
  have header: "ReadHeader csvFile = Inr ?header"
    by (simp add: csvFile_def)
  have found: "5 < length ?header \<and> matchesColumn ascii ''github username'' (?header ! 5) \<and>
     (\<forall>j<5. \<not> matchesColumn ascii ''github username'' (?header ! j)) \<and>
     ReadAll csvFile = Inr ?records \<and> (\<forall>row\<in>set ?records. length row = length ?header)"
    by code_simp
  have trimmed: "filter (\<lambda>e. e \<noteq> []) (map (\<lambda>row. TrimSpace ascii (row ! 5)) ?records) =
     [''kevinburke'', ''kevinburke_test'', ''test'']"
    by code_simp
  have missing: "\<forall>cell\<in>set ?header. \<not> matchesColumn ascii ''email'' cell"
    by code_simp
  from getUsernames_first_matching_column [OF header, of 5 ascii "''github username''" ?records]
    found trimmed
  have "getUsernames ascii csvFile ''github username'' =
     Return (Inr [''kevinburke'', ''kevinburke_test'', ''test''])"
    by simp
  moreover from getUsernames_first_matching_column [OF header, of _ ascii "''email''"] missing
  have "getUsernames ascii csvFile ''email'' =
     Return (Inl (Error (''no column named '' @ [CHR 0x27] @ ''email'' @ [CHR 0x27] @
                         ''; quitting'')))"
    by blast
  ultimately show ?thesis by simp
qed

text \<open>
  Claim C4. \<open>LoadContributors\<close> computes the default name into \<^verbatim>\<open>columnName\<close> and then
  passes \<^verbatim>\<open>s.ColumnName\<close> to \<open>getUsernames\<close>. With an empty \<open>ColumnName\<close> the
  match is against the empty string, which every header cell contains: the first column is
  read. On \<open>sheet\<close>, which is ASCII, the result is the name column, where the default
  name gives the user names.
\<close>

theorem LoadContributors_empty_ColumnName:
  "LoadContributors ascii (\<lambda>url. Inr sheet) \<lparr>sheetURL = ''sheet'', ColumnName = ''''\<rparr> =
     Return (Inr [''Kevin'']) \<and>
   getUsernames ascii sheet ''GitHub Username'' = Return (Inr [''kevinburke''])"
  by code_simp

section \<open>Properties of the CLA checker\<close>

lemma postStatus_failure:
  "postStatus ghc c sha ''failure'' =
     (Return (CreateStatus ghc sha \<lparr>State = Some ''failure'', Context = Some ''cla-bot'',
         Description = Some ''Contributor has not signed the CLA'', TargetURL = Some (claURL c)\<rparr>),
      [Repositories_CreateStatus sha \<lparr>State = Some ''failure'', Context = Some ''cla-bot'',
         Description = Some ''Contributor has not signed the CLA'', TargetURL = Some (claURL c)\<rparr>])"
  by (simp add: postStatus_def)

lemma postStatus_unnecessary:
  "postStatus ghc c sha ''unnecessary'' =
     (Return (CreateStatus ghc sha \<lparr>State = Some ''success'', Context = Some ''cla-bot'',
         Description = Some ''Changes do not require CLA submission'', TargetURL = None\<rparr>),
      [Repositories_CreateStatus sha \<lparr>State = Some ''success'', Context = Some ''cla-bot'',
         Description = Some ''Changes do not require CLA submission'', TargetURL = None\<rparr>])"
  by (simp add: postStatus_def)

lemma postStatus_success:
  "postStatus ghc c sha ''success'' =
     (Return (CreateStatus ghc sha \<lparr>State = Some ''success'', Context = Some ''cla-bot'',
         Description = Some ''Contributor has signed the CLA'', TargetURL = None\<rparr>),
      [Repositories_CreateStatus sha \<lparr>State = Some ''success'', Context = Some ''cla-bot'',
         Description = Some ''Contributor has signed the CLA'', TargetURL = None\<rparr>])"
  by (simp add: postStatus_def)

lemmas postStatus_known = postStatus_failure postStatus_unnecessary postStatus_success

lemma ForeachIssue_snoc:
  "ForeachIssue fn s pre = (Return None, s1, tr1) \<Longrightarrow>
   ForeachIssue fn s (pre @ [gi]) = (case fn s1 gi of (r, s2, tr2) \<Rightarrow> (r, s2, tr1 @ tr2))"
proof (induction pre arbitrary: s tr1)
  case Nil
  then show ?case by (auto split: prod.splits outcome.splits option.splits)
next
  case (Cons g pre)
  obtain r s' tr where f: "fn s g = (r, s', tr)" by (cases "fn s g")
  show ?case
  proof (cases "r = Return None")
    case True
    obtain r2 s2 tr2 where g: "ForeachIssue fn s' pre = (r2, s2, tr2)"
      by (cases "ForeachIssue fn s' pre")
    from Cons.prems f True g have eq: "r2 = Return None" "s2 = s1" "tr1 = tr @ tr2" by auto
    from Cons.IH[of s' tr2] g eq
    have "ForeachIssue fn s' (pre @ [gi]) = (case fn s1 gi of (r, s2, tr2') \<Rightarrow> (r, s2, tr2 @ tr2'))"
      by simp
    then show ?thesis using f True eq by (auto split: prod.splits)
  next
    case False
    with Cons.prems f show ?thesis by (cases r) (auto split: option.splits)
  qed
qed

lemma ForeachIssue_state:
  assumes "\<And>s gi. P s \<Longrightarrow> P (fst (snd (fn s gi)))" and "P s"
  shows "P (fst (snd (ForeachIssue fn s gis)))"
  using assms(2)
proof (induction gis arbitrary: s)
  case Nil
  then show ?case by simp
next
  case (Cons gi gis)
  obtain r s' tr where f: "fn s gi = (r, s', tr)" by (cases "fn s gi")
  have Ps': "P s'" using assms(1)[OF Cons.prems, of gi] f by simp
  show ?case
  proof (cases "r = Return None")
    case True
    obtain r2 s2 tr2 where g: "ForeachIssue fn s' gis = (r2, s2, tr2)"
      by (cases "ForeachIssue fn s' gis")
    have "P s2" using Cons.IH[OF Ps'] g by simp
    then show ?thesis using f True g by simp
  next
    case False
    then show ?thesis using f Ps' by (cases r) (auto split: option.splits)
  qed
qed

lemma ForeachIssue_calls:
  assumes "\<And>s gi. \<forall>e\<in>set (snd (snd (fn s gi))). Q e"
  shows "\<forall>e\<in>set (snd (snd (ForeachIssue fn s gis))). Q e"
proof (induction gis arbitrary: s)
  case Nil
  then show ?case by simp
next
  case (Cons gi gis)
  obtain r s' tr where f: "fn s gi = (r, s', tr)" by (cases "fn s gi")
  have tr: "\<forall>e\<in>set tr. Q e" using assms[of s gi] f by simp
  show ?case
  proof (cases "r = Return None")
    case True
    obtain r2 s2 tr2 where g: "ForeachIssue fn s' gis = (r2, s2, tr2)"
      by (cases "ForeachIssue fn s' gis")
    have "\<forall>e\<in>set tr2. Q e" using Cons.IH[of s'] g by simp
    then show ?thesis using f True g tr by auto
  next
    case False
    then show ?thesis using f tr by (cases r) (auto split: option.splits)
  qed
qed

lemma ForeachIssue_outcome:
  assumes "\<And>s gi. fst (fn s gi) \<noteq> x" and "x \<noteq> Return None"
  shows "fst (ForeachIssue fn s gis) \<noteq> x"
proof (induction gis arbitrary: s)
  case Nil
  then show ?case using assms(2) by auto
next
  case (Cons gi gis)
  obtain r s' tr where f: "fn s gi = (r, s', tr)" by (cases "fn s gi")
  have rx: "r \<noteq> x" using assms(1)[of s gi] f by simp
  show ?case
  proof (cases "r = Return None")
    case True
    obtain r2 s2 tr2 where g: "ForeachIssue fn s' gis = (r2, s2, tr2)"
      by (cases "ForeachIssue fn s' gis")
    have "r2 \<noteq> x" using Cons.IH[of s'] g by simp
    then show ?thesis using f True g by simp
  next
    case False
    then show ?thesis using f rx by (cases r) (auto split: option.splits)
  qed
qed

lemma signedBranch_state:
  "signedBranch ghc c gh pr statuses skip tr = (r, c', tr') \<Longrightarrow>
   c' = c \<or> c' = c\<lparr>signedCLAPRs := (signedCLAPRs c)(Number gh \<mapsto> True)\<rparr>"
  by (cases skip)
     (auto simp: signedBranch_def Let_def postStatus_known split: option.splits sum.splits if_splits)

lemma unsignedBranch_state:
  "unsignedBranch ghc c pr statuses tr = (r, c', tr') \<Longrightarrow> c' = c"
  by (auto simp: unsignedBranch_def Let_def postStatus_known split: option.splits sum.splits if_splits)

lemma checkIssue_state:
  assumes "checkIssue ghc c gh = (r, c', tr)"
  shows "contributors c' = contributors c \<and> claURL c' = claURL c \<and>
         CanSkipCLA c' = CanSkipCLA c \<and>
         (\<forall>n. signedCLAPRs c n \<noteq> None \<longrightarrow> signedCLAPRs c' n \<noteq> None)"
  using assms
  by (auto simp: checkIssue_def Let_def split: option.splits sum.splits if_splits
      dest!: signedBranch_state unsignedBranch_state)

lemma CLAChecker_Do_state:
  assumes "CLAChecker_Do ghc (c :: ('p, 'f) CLAChecker) issues = (r, c', tr)"
  shows "contributors c' = contributors c \<and> claURL c' = claURL c \<and>
         CanSkipCLA c' = CanSkipCLA c \<and>
         (\<forall>n. signedCLAPRs c n \<noteq> None \<longrightarrow> signedCLAPRs c' n \<noteq> None)"
proof -
  let ?P = "\<lambda>s :: ('p, 'f) CLAChecker. contributors s = contributors c \<and> claURL s = claURL c \<and>
         CanSkipCLA s = CanSkipCLA c \<and>
         (\<forall>n. signedCLAPRs c n \<noteq> None \<longrightarrow> signedCLAPRs s n \<noteq> None)"
  have "?P (fst (snd (ForeachIssue (checkIssue ghc) c issues)))"
  proof (rule ForeachIssue_state)
    fix s gi
    assume "?P s"
    moreover obtain r1 s1 t1 where "checkIssue ghc s gi = (r1, s1, t1)"
      by (cases "checkIssue ghc s gi")
    ultimately show "?P (fst (snd (checkIssue ghc s gi)))"
      using checkIssue_state[of ghc s gi r1 s1 t1] by simp
  qed simp
  then show ?thesis using assms by (simp add: CLAChecker_Do_def)
qed

lemma checkIssue_after_reads:
  assumes "\<not> NotExist gh \<and> PullRequest gh \<and> \<not> Closed gh"
    and "signedCLAPRs c (Number gh) = None"
    and "recv (contributorsLoaded c) = Some ch"
    and "Get ghc (sint (Number gh)) = Inr pr"
    and "ListFiles ghc (sint (Number gh)) = Inr files"
    and "ListStatuses ghc (GetSHA pr) = Inr statuses"
  shows "checkIssue ghc c gh =
    (if isContributor c (UserLogin gh) \<or> canSkipCLA c pr files
     then signedBranch ghc (c\<lparr>contributorsLoaded := ch\<rparr>) gh pr statuses (canSkipCLA c pr files)
            [PullRequests_Get (sint (Number gh)), PullRequests_ListFiles (sint (Number gh)),
             Repositories_ListStatuses (GetSHA pr)]
     else unsignedBranch ghc (c\<lparr>contributorsLoaded := ch\<rparr>) pr statuses
            [PullRequests_Get (sint (Number gh)), PullRequests_ListFiles (sint (Number gh)),
             Repositories_ListStatuses (GetSHA pr)])"
  using assms by (simp add: checkIssue_def Let_def isContributor_def canSkipCLA_def)

lemma checkIssue_cached:
  "signedCLAPRs c (Number gh) \<noteq> None \<Longrightarrow> checkIssue ghc c gh = (Return None, c, [])"
  by (auto simp: checkIssue_def)

lemmas cla_examples = openPullRequest_def closedIssue_def loadedChecker_def github_def
  claStatus_def NewCLAChecker_def contributorMap_def

lemma Do_closedIssue:
  "CLAChecker_Do ghc c [closedIssue n login] = (Return None, c, [])"
  by (simp add: CLAChecker_Do_def checkIssue_def closedIssue_def)

text \<open>
  Claim C6. Let the cycle reach an open pull request \<open>gh\<close> (the issues before it are
  done without an error), with the allowlist loaded, the author on it, and the three reads
  of the pull request answered. If the pull request is not in the cache of signed pull
  requests and has no status under \<^verbatim>\<open>cla-bot\<close>, the cycle makes the three reads and
  then exactly one status post for it, with state \<^verbatim>\<open>success\<close>. If it is not in the cache
  and its first \<^verbatim>\<open>cla-bot\<close> status reads \<^verbatim>\<open>success\<close>, the cycle makes the three reads
  that show this, records the number in the cache and makes no call after that. In every
  cycle that starts with the number in the cache, no call at all is made for it.
\<close>

theorem allowlisted_pull_request_status:
  assumes live: "\<not> NotExist gh \<and> PullRequest gh \<and> \<not> Closed gh"
    and reached: "CLAChecker_Do ghc c pre = (Return None, c1, tr1)"
    and fresh: "signedCLAPRs c1 (Number gh) = None"
    and loaded: "recv (contributorsLoaded c1) = Some ch"
    and allowlisted: "isContributor c (UserLogin gh)"
    and reads: "Get ghc (sint (Number gh)) = Inr pr \<and> ListFiles ghc (sint (Number gh)) = Inr files \<and>
                HeadSHA pr = Some sha \<and> ListStatuses ghc sha = Inr statuses"
  shows
    "(find (\<lambda>s. GetContext s = ''cla-bot'') statuses = None \<longrightarrow>
        CLAChecker_Do ghc c (pre @ [gh]) =
          (case CreateStatus ghc sha
                  \<lparr>State = Some ''success'', Context = Some ''cla-bot'',
                   Description = Some (if canSkipCLA c pr files
                                       then ''Changes do not require CLA submission''
                                       else ''Contributor has signed the CLA''),
                   TargetURL = None\<rparr> of
             Inl err \<Rightarrow> Return (Some err) | Inr status \<Rightarrow> Return None,
           c1\<lparr>contributorsLoaded := ch\<rparr>,
           tr1 @ [PullRequests_Get (sint (Number gh)), PullRequests_ListFiles (sint (Number gh)),
                  Repositories_ListStatuses sha,
                  Repositories_CreateStatus sha
                    \<lparr>State = Some ''success'', Context = Some ''cla-bot'',
                     Description = Some (if canSkipCLA c pr files
                                         then ''Changes do not require CLA submission''
                                         else ''Contributor has signed the CLA''),
                     TargetURL = None\<rparr>]))
     \<and>
     (find (\<lambda>s. GetContext s = ''cla-bot'') statuses = Some st \<and> GetState st = ''success'' \<longrightarrow>
        CLAChecker_Do ghc c (pre @ [gh]) =
          (Return None,
           c1\<lparr>contributorsLoaded := ch, signedCLAPRs := (signedCLAPRs c1)(Number gh \<mapsto> True)\<rparr>,
           tr1 @ [PullRequests_Get (sint (Number gh)), PullRequests_ListFiles (sint (Number gh)),
                  Repositories_ListStatuses sha]))
     \<and>
     (signedCLAPRs c' (Number gh) \<noteq> None \<and> CLAChecker_Do ghc' c' pre' = (Return None, c1', tr1') \<longrightarrow>
        CLAChecker_Do ghc' c' (pre' @ [gh]) = (Return None, c1', tr1'))"
proof (intro conjI impI)
  have st: "isContributor c1 (UserLogin gh)" "canSkipCLA c1 pr files = canSkipCLA c pr files"
    using CLAChecker_Do_state[OF reached] allowlisted
    by (simp_all add: isContributor_def canSkipCLA_def)
  have sha: "GetSHA pr = sha" using reads by (simp add: GetSHA_def)
  have chk: "checkIssue ghc c1 gh =
     signedBranch ghc (c1\<lparr>contributorsLoaded := ch\<rparr>) gh pr statuses (canSkipCLA c pr files)
            [PullRequests_Get (sint (Number gh)), PullRequests_ListFiles (sint (Number gh)),
             Repositories_ListStatuses sha]"
    using checkIssue_after_reads[OF live fresh loaded, of ghc pr files statuses] reads st sha
    by simp
  have snoc: "CLAChecker_Do ghc c (pre @ [gh]) =
      (case checkIssue ghc c1 gh of (r, s2, tr2) \<Rightarrow> (r, s2, tr1 @ tr2))"
    using reached ForeachIssue_snoc[of "checkIssue ghc" c pre c1 tr1 gh]
    by (simp add: CLAChecker_Do_def)
  {
    assume "find (\<lambda>s. GetContext s = ''cla-bot'') statuses = None"
    then show "CLAChecker_Do ghc c (pre @ [gh]) =
          (case CreateStatus ghc sha
                  \<lparr>State = Some ''success'', Context = Some ''cla-bot'',
                   Description = Some (if canSkipCLA c pr files
                                       then ''Changes do not require CLA submission''
                                       else ''Contributor has signed the CLA''),
                   TargetURL = None\<rparr> of
             Inl err \<Rightarrow> Return (Some err) | Inr status \<Rightarrow> Return None,
           c1\<lparr>contributorsLoaded := ch\<rparr>,
           tr1 @ [PullRequests_Get (sint (Number gh)), PullRequests_ListFiles (sint (Number gh)),
                  Repositories_ListStatuses sha,
                  Repositories_CreateStatus sha
                    \<lparr>State = Some ''success'', Context = Some ''cla-bot'',
                     Description = Some (if canSkipCLA c pr files
                                         then ''Changes do not require CLA submission''
                                         else ''Contributor has signed the CLA''),
                     TargetURL = None\<rparr>])"
      using reads
      by (cases "canSkipCLA c pr files")
         (auto simp: snoc chk signedBranch_def Let_def postStatus_known split: sum.splits)
  }
  {
    assume "find (\<lambda>s. GetContext s = ''cla-bot'') statuses = Some st \<and> GetState st = ''success''"
    then show "CLAChecker_Do ghc c (pre @ [gh]) =
          (Return None,
           c1\<lparr>contributorsLoaded := ch, signedCLAPRs := (signedCLAPRs c1)(Number gh \<mapsto> True)\<rparr>,
           tr1 @ [PullRequests_Get (sint (Number gh)), PullRequests_ListFiles (sint (Number gh)),
                  Repositories_ListStatuses sha])"
      by (simp add: snoc chk signedBranch_def Let_def)
  }
  {
    assume a: "signedCLAPRs c' (Number gh) \<noteq> None \<and> CLAChecker_Do ghc' c' pre' = (Return None, c1', tr1')"
    then have "signedCLAPRs c1' (Number gh) \<noteq> None"
      using CLAChecker_Do_state[of ghc' c' pre' "Return None" c1' tr1'] by blast
    then have "checkIssue ghc' c1' gh = (Return None, c1', [])" by (rule checkIssue_cached)
    then show "CLAChecker_Do ghc' c' (pre' @ [gh]) = (Return None, c1', tr1')"
      using a ForeachIssue_snoc[of "checkIssue ghc'" c' pre' c1' tr1' gh]
      by (simp add: CLAChecker_Do_def)
  }
qed

text \<open>
  Three cycles on a snapshot of a closed issue and pull request 7 of an allowlisted author:
  without a status, with the status \<^verbatim>\<open>success\<close>, and with the number cached.
\<close>

theorem allowlisted_pull_request_status_witness:
  "CLAChecker_Do (github [] None) (loadedChecker [''alice''])
       [closedIssue 3 ''bob'', openPullRequest 7 ''alice''] =
     (Return None, loadedChecker [''alice''],
      [PullRequests_Get 7, PullRequests_ListFiles 7, Repositories_ListStatuses ''abc'',
       Repositories_CreateStatus ''abc''
         \<lparr>State = Some ''success'', Context = Some ''cla-bot'',
          Description = Some ''Contributor has signed the CLA'', TargetURL = None\<rparr>]) \<and>
   CLAChecker_Do (github [claStatus ''success''] None) (loadedChecker [''alice''])
       [closedIssue 3 ''bob'', openPullRequest 7 ''alice''] =
     (Return None,
      (loadedChecker [''alice''])\<lparr>signedCLAPRs := (signedCLAPRs (loadedChecker [''alice'']))(7 \<mapsto> True)\<rparr>,
      [PullRequests_Get 7, PullRequests_ListFiles 7, Repositories_ListStatuses ''abc'']) \<and>
   CLAChecker_Do (github [] None)
       ((loadedChecker [''alice''])\<lparr>signedCLAPRs := (signedCLAPRs (loadedChecker [''alice'']))(7 \<mapsto> True)\<rparr>)
       [closedIssue 3 ''bob'', openPullRequest 7 ''alice''] =
     (Return None,
      (loadedChecker [''alice''])\<lparr>signedCLAPRs := (signedCLAPRs (loadedChecker [''alice'']))(7 \<mapsto> True)\<rparr>,
      [])"
proof -
  let ?c = "loadedChecker [''alice'']"
  let ?c' = "?c\<lparr>signedCLAPRs := (signedCLAPRs ?c)(7 \<mapsto> True)\<rparr>"
  let ?gh = "openPullRequest 7 ''alice''"
  let ?pre = "[closedIssue 3 ''bob'']"
  have live: "\<not> NotExist ?gh \<and> PullRequest ?gh \<and> \<not> Closed ?gh"
    by (simp add: openPullRequest_def)
  have reached: "CLAChecker_Do ghc ?c ?pre = (Return None, ?c, [])" for ghc
    by (rule Do_closedIssue)
  have reached': "CLAChecker_Do ghc ?c' ?pre = (Return None, ?c', [])" for ghc
    by (rule Do_closedIssue)
  have fresh: "signedCLAPRs ?c (Number ?gh) = None"
    by (simp add: cla_examples)
  have loaded: "recv (contributorsLoaded ?c) = Some (contributorsLoaded ?c)"
    by (simp add: cla_examples recv_def)
  have allowlisted: "isContributor ?c (UserLogin ?gh)"
    by (simp add: cla_examples isContributor_def)
  have reads: "Get (github sts None) (sint (Number ?gh)) = Inr \<lparr>HeadSHA = Some ''abc''\<rparr> \<and>
      ListFiles (github sts None) (sint (Number ?gh)) = Inr [] \<and>
      HeadSHA \<lparr>HeadSHA = Some ''abc''\<rparr> = Some ''abc'' \<and>
      ListStatuses (github sts None) ''abc'' = Inr sts" for sts
    by (simp add: cla_examples)
  have cached: "signedCLAPRs ?c' (Number ?gh) \<noteq> None"
    by (simp add: cla_examples)
  note first = allowlisted_pull_request_status
    [OF live reached fresh loaded allowlisted reads,
      of "[]" _ ?c' "github [] None" ?pre ?c' "[]"]
  note second = allowlisted_pull_request_status
    [OF live reached fresh loaded allowlisted reads,
      of "[claStatus ''success'']" "claStatus ''success''"]
  have a: "CLAChecker_Do (github [] None) ?c (?pre @ [?gh]) =
     (Return None, ?c,
      [PullRequests_Get 7, PullRequests_ListFiles 7, Repositories_ListStatuses ''abc'',
       Repositories_CreateStatus ''abc''
         \<lparr>State = Some ''success'', Context = Some ''cla-bot'',
          Description = Some ''Contributor has signed the CLA'', TargetURL = None\<rparr>])"
    using first [THEN conjunct1] by (simp add: cla_examples canSkipCLA_def)
  have b: "CLAChecker_Do (github [claStatus ''success''] None) ?c (?pre @ [?gh]) =
     (Return None, ?c', [PullRequests_Get 7, PullRequests_ListFiles 7, Repositories_ListStatuses ''abc''])"
    using second [THEN conjunct2, THEN conjunct1]
    by (simp add: cla_examples GetContext_def GetState_def)
  have c: "CLAChecker_Do (github [] None) ?c' (?pre @ [?gh]) = (Return None, ?c', [])"
    using first [THEN conjunct2, THEN conjunct2] cached reached' by blast
  from a b c show ?thesis by simp
qed



text \<open>
  Claim C2. GitHub answers every read and fails every status post. For the pull request of
  an author who is not on the allowlist, \<open>CLAChecker_Do\<close> does not return the error: it
  ends the process (\<^verbatim>\<open>log.Fatal\<close>, line 304). For the pull request of an allowlisted
  author the same failure is returned to the caller (line 286).
\<close>

theorem failed_failure_post_ends_process:
  "fst (CLAChecker_Do (github [] (Some (Error ''502 Bad Gateway''))) (loadedChecker [''alice''])
          [openPullRequest 8 ''mallory'']) = Fatal (Error ''502 Bad Gateway'') \<and>
   fst (CLAChecker_Do (github [] (Some (Error ''502 Bad Gateway''))) (loadedChecker [''alice''])
          [openPullRequest 7 ''alice'']) = Return (Some (Error ''502 Bad Gateway''))"
  by (simp add: CLAChecker_Do_def checkIssue_def signedBranch_def unsignedBranch_def
      postStatus_def recv_def isContributor_def canSkipCLA_def GetSHA_def cla_examples)

lemma signedBranch_posts:
  assumes "\<forall>e\<in>set tr. \<forall>sha sr. e = Repositories_CreateStatus sha sr \<longrightarrow> P sr"
    and "P \<lparr>State = Some ''success'', Context = Some ''cla-bot'',
         Description = Some ''Changes do not require CLA submission'', TargetURL = None\<rparr>"
    and "P \<lparr>State = Some ''success'', Context = Some ''cla-bot'',
         Description = Some ''Contributor has signed the CLA'', TargetURL = None\<rparr>"
  shows "\<forall>e\<in>set (snd (snd (signedBranch ghc c gh pr statuses skip tr))).
           \<forall>sha sr. e = Repositories_CreateStatus sha sr \<longrightarrow> P sr"
  using assms
  by (cases skip)
     (auto simp: signedBranch_def Let_def postStatus_known split: option.splits sum.splits)

lemma unsignedBranch_posts:
  assumes "\<forall>e\<in>set tr. \<forall>sha sr. e = Repositories_CreateStatus sha sr \<longrightarrow> P sr"
    and "P \<lparr>State = Some ''failure'', Context = Some ''cla-bot'',
         Description = Some ''Contributor has not signed the CLA'', TargetURL = Some (claURL c)\<rparr>"
  shows "\<forall>e\<in>set (snd (snd (unsignedBranch ghc c pr statuses tr))).
           \<forall>sha sr. e = Repositories_CreateStatus sha sr \<longrightarrow> P sr"
  using assms
  by (auto simp: unsignedBranch_def Let_def postStatus_known split: option.splits sum.splits)

lemma checkIssue_posts:
  "\<forall>e\<in>set (snd (snd (checkIssue ghc c gh))).
     \<forall>sha sr. e = Repositories_CreateStatus sha sr \<longrightarrow> built sr"
proof -
  have sb: "\<forall>e\<in>set (snd (snd (signedBranch ghc c' gh pr statuses skip
        [PullRequests_Get n, PullRequests_ListFiles n, Repositories_ListStatuses s]))).
     \<forall>sha sr. e = Repositories_CreateStatus sha sr \<longrightarrow> built sr" for c' pr statuses skip n s
    by (rule signedBranch_posts) (auto simp: built_def)
  have ub: "\<forall>e\<in>set (snd (snd (unsignedBranch ghc c' pr statuses
        [PullRequests_Get n, PullRequests_ListFiles n, Repositories_ListStatuses s]))).
     \<forall>sha sr. e = Repositories_CreateStatus sha sr \<longrightarrow> built sr" for c' pr statuses n s
    by (rule unsignedBranch_posts) (auto simp: built_def)
  show ?thesis
    using sb ub
    by (simp add: checkIssue_def Let_def split: option.splits sum.splits)
qed

lemma signedBranch_no_unknown:
  "fst (signedBranch ghc c gh pr statuses skip tr) \<noteq> Panic (UnknownState state)"
  by (cases skip) (auto simp: signedBranch_def Let_def postStatus_known split: option.splits sum.splits)

lemma unsignedBranch_no_unknown:
  "fst (unsignedBranch ghc c pr statuses tr) \<noteq> Panic (UnknownState state)"
  by (auto simp: unsignedBranch_def Let_def postStatus_known split: option.splits sum.splits)

lemma checkIssue_no_unknown:
  "fst (checkIssue ghc c gh) \<noteq> Panic (UnknownState state)"
  by (auto simp: checkIssue_def Let_def signedBranch_no_unknown unsignedBranch_no_unknown
      split: option.splits sum.splits)

text \<open>
  Claim C10. Whatever GitHub answers and whatever the snapshot holds, \<open>CLAChecker_Do\<close>
  does not end in the panic of \<open>postStatus\<close> for an unknown state, and every status it
  posts is one that \<open>postStatus\<close> has built from \<^verbatim>\<open>success\<close>, \<^verbatim>\<open>unnecessary\<close> or
  \<^verbatim>\<open>failure\<close>.
\<close>

theorem postStatus_panic_unreachable:
  "fst (CLAChecker_Do ghc c issues) \<noteq> Panic (UnknownState state) \<and>
   (\<forall>sha sr. Repositories_CreateStatus sha sr \<in> set (snd (snd (CLAChecker_Do ghc c issues)))
      \<longrightarrow> built sr)"
proof
  show "fst (CLAChecker_Do ghc c issues) \<noteq> Panic (UnknownState state)"
    unfolding CLAChecker_Do_def
    by (rule ForeachIssue_outcome) (simp_all add: checkIssue_no_unknown)
  have "\<forall>e\<in>set (snd (snd (ForeachIssue (checkIssue ghc) c issues))).
     \<forall>sha sr. e = Repositories_CreateStatus sha sr \<longrightarrow> built sr"
    by (rule ForeachIssue_calls) (rule checkIssue_posts)
  then show "\<forall>sha sr. Repositories_CreateStatus sha sr \<in> set (snd (snd (CLAChecker_Do ghc c issues)))
      \<longrightarrow> built sr"
    by (auto simp: CLAChecker_Do_def)
qed

text \<open>A cycle that posts a passing and a failing status.\<close>

theorem postStatus_panic_unreachable_witness:
  "fst (CLAChecker_Do (github [] None) (loadedChecker [''alice''])
          [openPullRequest 7 ''alice'', openPullRequest 8 ''mallory'']) = Return None \<and>
   Repositories_CreateStatus ''abc''
      \<lparr>State = Some ''failure'', Context = Some ''cla-bot'',
       Description = Some ''Contributor has not signed the CLA'',
       TargetURL = Some ''https://example.com/cla''\<rparr>
     \<in> set (snd (snd (CLAChecker_Do (github [] None) (loadedChecker [''alice''])
          [openPullRequest 7 ''alice'', openPullRequest 8 ''mallory'']))) \<and>
   built \<lparr>State = Some ''failure'', Context = Some ''cla-bot'',
       Description = Some ''Contributor has not signed the CLA'',
       TargetURL = Some ''https://example.com/cla''\<rparr>"
proof -
  let ?run = "CLAChecker_Do (github [] None) (loadedChecker [''alice''])
          [openPullRequest 7 ''alice'', openPullRequest 8 ''mallory'']"
  have run: "fst ?run = Return None \<and>
    Repositories_CreateStatus ''abc''
      \<lparr>State = Some ''failure'', Context = Some ''cla-bot'',
       Description = Some ''Contributor has not signed the CLA'',
       TargetURL = Some ''https://example.com/cla''\<rparr> \<in> set (snd (snd ?run))"
    by (simp add: CLAChecker_Do_def checkIssue_def signedBranch_def unsignedBranch_def
      postStatus_def recv_def isContributor_def canSkipCLA_def GetSHA_def cla_examples)
  with postStatus_panic_unreachable
    [of "github [] None" "loadedChecker [''alice'']"
        "[openPullRequest 7 ''alice'', openPullRequest 8 ''mallory'']"]
  show ?thesis by blast
qed

section \<open>Properties of the congratulator\<close>

lemma scan_fold:
  "ForeachIssue (\<lambda>s gh. (Return None, f s gh, [])) s gis =
     (Return None, fold (\<lambda>gh s. f s gh) gis s, [])"
  by (induction gis arbitrary: s) auto

lemma scan_eq:
  "scan known issues = (Return None, fold (\<lambda>gh s. scanIssue s gh) issues (known, []), [])"
  by (simp add: scan_def scan_fold)

lemma map_of_None_iff: "map_of prs u = None \<longleftrightarrow> u \<notin> fst ` set prs"
  by (simp add: map_of_eq_None_iff)

lemma scanned_step:
  assumes "scanned known0 seen s"
  shows "scanned known0 (seen @ [gh]) (scanIssue s gh)"
proof -
  obtain known prs where s: "s = (known, prs)" by (cases s)
  note inv = assms[unfolded s scanned_def, simplified]
  show ?thesis
  proof (cases "NotExist gh \<or> \<not> PullRequest gh")
    case True
    then have "filter (livePR u) (seen @ [gh]) = filter (livePR u) seen" for u
      by (auto simp: livePR_def)
    with inv True show ?thesis
      by (auto simp: s scanned_def scanIssue_def)
  next
    case live: False
    let ?u = "UserLogin gh"
    have cnt: "length (filter (livePR u) (seen @ [gh])) =
       length (filter (livePR u) seen) + (if u = ?u then 1 else 0)" for u
      using live by (auto simp: livePR_def)
    show ?thesis
    proof (cases "known ?u = Some True")
      case True
      with inv live show ?thesis
        by (auto simp: s scanned_def scanIssue_def livePR_def split: if_splits)
    next
      case unknown: False
      show ?thesis
      proof (cases "?u \<in> fst ` set prs")
        case True
        then have m: "map_of prs ?u \<noteq> None" by (simp add: map_of_None_iff)
        have keys: "fst ` set (filter (\<lambda>p. fst p \<noteq> ?u) prs) = fst ` set prs - {?u}"
          by auto
        have "scanned known0 (seen @ [gh])
                (known(?u \<mapsto> True), filter (\<lambda>p. fst p \<noteq> ?u) prs)"
          unfolding scanned_def prod.case
        proof (intro conjI)
          show "distinct (map fst (filter (\<lambda>p. fst p \<noteq> ?u) prs))"
            using inv by (simp add: distinct_map_filter)
          show "\<forall>(u, gi)\<in>set (filter (\<lambda>p. fst p \<noteq> ?u) prs).
             gi \<in> set (seen @ [gh]) \<and> UserLogin gi = u \<and> (known(?u \<mapsto> True)) u \<noteq> Some True"
            using inv by auto
          show "\<forall>u. known0 u = Some True \<longrightarrow> (known(?u \<mapsto> True)) u = Some True"
            using inv by auto
          show "\<forall>u. (known(?u \<mapsto> True)) u \<noteq> Some True \<longrightarrow>
            (if u \<in> fst ` set (filter (\<lambda>p. fst p \<noteq> ?u) prs)
             then length (filter (livePR u) (seen @ [gh])) = 1
             else length (filter (livePR u) (seen @ [gh])) = 0)"
            unfolding keys cnt using inv by (auto split: if_splits)
        qed
        then show ?thesis using live unknown m by (simp add: s scanIssue_def Let_def)
      next
        case False
        then have m: "map_of prs ?u = None" by (simp add: map_of_None_iff)
        have "scanned known0 (seen @ [gh]) (known, prs @ [(?u, gh)])"
          unfolding scanned_def prod.case
        proof (intro conjI)
          show "distinct (map fst (prs @ [(?u, gh)]))"
            using inv False by auto
          show "\<forall>(u, gi)\<in>set (prs @ [(?u, gh)]).
             gi \<in> set (seen @ [gh]) \<and> UserLogin gi = u \<and> known u \<noteq> Some True"
            using inv unknown by auto
          show "\<forall>u. known0 u = Some True \<longrightarrow> known u = Some True"
            using inv by auto
          show "\<forall>u. known u \<noteq> Some True \<longrightarrow>
            (if u \<in> fst ` set (prs @ [(?u, gh)])
             then length (filter (livePR u) (seen @ [gh])) = 1
             else length (filter (livePR u) (seen @ [gh])) = 0)"
            unfolding cnt using inv False by (auto split: if_splits)
        qed
        then show ?thesis using live unknown m by (simp add: s scanIssue_def Let_def)
      qed
    qed
  qed
qed

lemma scanned_fold:
  "scanned known0 issues (fold (\<lambda>gh s. scanIssue s gh) issues (known0, []))"
proof (induction issues rule: rev_induct)
  case Nil
  then show ?case by (simp add: scanned_def)
next
  case (snoc gh issues)
  then show ?case by (simp add: scanned_step)
qed

text \<open>
  One candidate either lets the loop go on, with the author recorded, or ends it with an
  error and the cache as it was. Either way the calls are for that pull request.
\<close>

lemma welcomeLoop_Cons:
  "(\<exists>tr. (\<forall>e\<in>set tr. welcomed e = Some (sint (Number gi))) \<and>
      (\<forall>known rest. welcomeLoop ghc msg known ((u, gi) # rest) =
         (case welcomeLoop ghc msg (known(u \<mapsto> True)) rest of
            (r, k, tr') \<Rightarrow> (r, k, tr @ tr')))) \<or>
   (\<exists>err tr. (\<forall>e\<in>set tr. welcomed e = Some (sint (Number gi))) \<and>
      (\<forall>known rest. welcomeLoop ghc msg known ((u, gi) # rest) = (Some err, known, tr)))"
proof (cases "Closed gi \<or> list_ex (\<lambda>name. name = ''new-contributor'') (Labels gi)")
  case True
  then have "\<forall>known rest. welcomeLoop ghc msg known ((u, gi) # rest) =
         (case welcomeLoop ghc msg (known(u \<mapsto> True)) rest of
            (r, k, tr') \<Rightarrow> (r, k, [] @ tr'))"
    by (auto simp: Let_def split: prod.splits)
  then show ?thesis by (intro disjI1 exI[of _ "[]"]) simp
next
  case candidate: False
  let ?n = "sint (Number gi)"
  let ?label = "Issues_AddLabelsToIssue ?n [''new-contributor'']"
  show ?thesis
  proof (cases "msg (UserLogin gi)")
    case (Inl err)
    with candidate
    have "\<forall>known rest. welcomeLoop ghc msg known ((u, gi) # rest) = (Some err, known, [])"
      by (simp add: Let_def)
    then show ?thesis by (intro disjI2 exI[of _ err] exI[of _ "[]"]) simp
  next
    case (Inr body)
    let ?comment = "Issues_CreateComment ?n body"
    show ?thesis
    proof (cases "AddLabelsToIssue ghc ?n [''new-contributor'']")
      case (Some err)
      with candidate Inr
      have "\<forall>known rest. welcomeLoop ghc msg known ((u, gi) # rest) = (Some err, known, [?label])"
        by (simp add: Let_def)
      then show ?thesis by (intro disjI2 exI[of _ err] exI[of _ "[?label]"]) simp
    next
      case labelled: None
      show ?thesis
      proof (cases "CreateComment ghc ?n body")
        case (Some err)
        with candidate Inr labelled
        have "\<forall>known rest. welcomeLoop ghc msg known ((u, gi) # rest) =
            (Some err, known, [?label, ?comment])"
          by (simp add: Let_def)
        then show ?thesis
          by (intro disjI2 exI[of _ err] exI[of _ "[?label, ?comment]"]) simp
      next
        case None
        with candidate Inr labelled
        have "\<forall>known rest. welcomeLoop ghc msg known ((u, gi) # rest) =
          (case welcomeLoop ghc msg (known(u \<mapsto> True)) rest of
            (r, k, tr') \<Rightarrow> (r, k, [?label, ?comment] @ tr'))"
          by (simp add: Let_def split: prod.splits)
        then show ?thesis by (intro disjI1 exI[of _ "[?label, ?comment]"]) simp
      qed
    qed
  qed
qed

lemma welcomeLoop_append:
  "welcomeLoop ghc msg known (pre @ rest) =
     (case welcomeLoop ghc msg known pre of
        (None, known1, tr1) \<Rightarrow>
          (case welcomeLoop ghc msg known1 rest of (r, known2, tr2) \<Rightarrow> (r, known2, tr1 @ tr2))
      | (Some e, known1, tr1) \<Rightarrow> (Some e, known1, tr1))"
proof (induction pre arbitrary: known)
  case Nil
  then show ?case by (simp split: prod.splits)
next
  case (Cons p pre)
  obtain u gi where p: "p = (u, gi)" by (cases p)
  from welcomeLoop_Cons[of gi ghc msg u] show ?case
  proof (elim disjE exE conjE)
    fix tr
    assume step: "\<forall>known rest. welcomeLoop ghc msg known ((u, gi) # rest) =
         (case welcomeLoop ghc msg (known(u \<mapsto> True)) rest of
            (r, k, tr') \<Rightarrow> (r, k, tr @ tr'))"
    obtain r1 k1 t1 where a: "welcomeLoop ghc msg (known(u \<mapsto> True)) pre = (r1, k1, t1)"
      by (cases "welcomeLoop ghc msg (known(u \<mapsto> True)) pre")
    obtain r2 k2 t2 where b: "welcomeLoop ghc msg k1 rest = (r2, k2, t2)"
      by (cases "welcomeLoop ghc msg k1 rest")
    have c: "welcomeLoop ghc msg (known(u \<mapsto> True)) (pre @ rest) =
        (case r1 of None \<Rightarrow> (r2, k2, t1 @ t2) | Some e \<Rightarrow> (Some e, k1, t1))"
      unfolding Cons.IH[of "known(u \<mapsto> True)"] a by (simp add: b split: option.splits)
    have d: "welcomeLoop ghc msg known ((u, gi) # pre @ rest) =
        (case welcomeLoop ghc msg (known(u \<mapsto> True)) (pre @ rest) of
            (r, k, tr') \<Rightarrow> (r, k, tr @ tr'))"
      using step by blast
    have e: "welcomeLoop ghc msg known ((u, gi) # pre) =
        (case welcomeLoop ghc msg (known(u \<mapsto> True)) pre of
            (r, k, tr') \<Rightarrow> (r, k, tr @ tr'))"
      using step by blast
    show ?thesis
      unfolding p append_Cons d e c a by (cases r1) (simp_all add: b)
  next
    fix err tr
    assume "\<forall>known rest. welcomeLoop ghc msg known ((u, gi) # rest) = (Some err, known, tr)"
    then show ?thesis by (simp add: p del: welcomeLoop.simps)
  qed
qed

lemma welcomeLoop_mono:
  "welcomeLoop ghc msg known ps = (r, known', tr) \<Longrightarrow> known u = Some True \<Longrightarrow>
   known' u = Some True"
proof (induction ps arbitrary: known r known' tr)
  case Nil
  then show ?case by simp
next
  case (Cons p ps)
  obtain v gi where p: "p = (v, gi)" by (cases p)
  from welcomeLoop_Cons[of gi ghc msg v] show ?case
  proof (elim disjE exE conjE)
    fix tr0
    assume step: "\<forall>known rest. welcomeLoop ghc msg known ((v, gi) # rest) =
         (case welcomeLoop ghc msg (known(v \<mapsto> True)) rest of
            (r, k, tr') \<Rightarrow> (r, k, tr0 @ tr'))"
    obtain r2 k2 tr2 where rest: "welcomeLoop ghc msg (known(v \<mapsto> True)) ps = (r2, k2, tr2)"
      by (cases "welcomeLoop ghc msg (known(v \<mapsto> True)) ps")
    have "k2 u = Some True" using Cons.IH[OF rest] Cons.prems(2) by simp
    then show ?thesis using Cons.prems(1) by (simp add: p step rest del: welcomeLoop.simps)
  next
    fix err tr0
    assume "\<forall>known rest. welcomeLoop ghc msg known ((v, gi) # rest) = (Some err, known, tr0)"
    then show ?thesis using Cons.prems by (simp add: p del: welcomeLoop.simps)
  qed
qed

lemma welcomeLoop_marks:
  "welcomeLoop ghc msg known ps = (r, known', tr) \<Longrightarrow> known' u = Some True \<Longrightarrow>
   known u = Some True \<or> u \<in> fst ` set ps"
proof (induction ps arbitrary: known r known' tr)
  case Nil
  then show ?case by simp
next
  case (Cons p ps)
  obtain v gi where p: "p = (v, gi)" by (cases p)
  from welcomeLoop_Cons[of gi ghc msg v] show ?case
  proof (elim disjE exE conjE)
    fix tr0
    assume step: "\<forall>known rest. welcomeLoop ghc msg known ((v, gi) # rest) =
         (case welcomeLoop ghc msg (known(v \<mapsto> True)) rest of
            (r, k, tr') \<Rightarrow> (r, k, tr0 @ tr'))"
    obtain r2 k2 tr2 where rest: "welcomeLoop ghc msg (known(v \<mapsto> True)) ps = (r2, k2, tr2)"
      by (cases "welcomeLoop ghc msg (known(v \<mapsto> True)) ps")
    have "k2 = known'" using Cons.prems(1) by (simp add: p step rest del: welcomeLoop.simps)
    then have "(known(v \<mapsto> True)) u = Some True \<or> u \<in> fst ` set ps"
      using Cons.IH[OF rest] Cons.prems(2) by simp
    then show ?thesis by (auto simp: p split: if_splits)
  next
    fix err tr0
    assume "\<forall>known rest. welcomeLoop ghc msg known ((v, gi) # rest) = (Some err, known, tr0)"
    then show ?thesis using Cons.prems by (simp add: p del: welcomeLoop.simps)
  qed
qed

lemma welcomeLoop_calls:
  "welcomeLoop ghc msg known ps = (r, known', tr) \<Longrightarrow> e \<in> set tr \<Longrightarrow>
   \<exists>p\<in>set ps. welcomed e = Some (sint (Number (snd p)))"
proof (induction ps arbitrary: known r known' tr)
  case Nil
  then show ?case by simp
next
  case (Cons p ps)
  obtain v gi where p: "p = (v, gi)" by (cases p)
  from welcomeLoop_Cons[of gi ghc msg v] show ?case
  proof (elim disjE exE conjE)
    fix tr0
    assume calls: "\<forall>e\<in>set tr0. welcomed e = Some (sint (Number gi))"
    assume step: "\<forall>known rest. welcomeLoop ghc msg known ((v, gi) # rest) =
         (case welcomeLoop ghc msg (known(v \<mapsto> True)) rest of
            (r, k, tr') \<Rightarrow> (r, k, tr0 @ tr'))"
    obtain r2 k2 tr2 where rest: "welcomeLoop ghc msg (known(v \<mapsto> True)) ps = (r2, k2, tr2)"
      by (cases "welcomeLoop ghc msg (known(v \<mapsto> True)) ps")
    have "tr = tr0 @ tr2" using Cons.prems(1) by (simp add: p step rest del: welcomeLoop.simps)
    then consider "e \<in> set tr0" | "e \<in> set tr2" using Cons.prems(2) by auto
    then show ?thesis
    proof cases
      case 1
      then show ?thesis using calls by (simp add: p)
    next
      case 2
      then show ?thesis using Cons.IH[OF rest] by auto
    qed
  next
    fix err tr0
    assume calls: "\<forall>e\<in>set tr0. welcomed e = Some (sint (Number gi))"
    assume "\<forall>known rest. welcomeLoop ghc msg known ((v, gi) # rest) = (Some err, known, tr0)"
    then have "tr = tr0" using Cons.prems(1) by (simp add: p del: welcomeLoop.simps)
    then show ?thesis using calls Cons.prems(2) by (simp add: p)
  qed
qed

lemma scan_scanned:
  obtains known prs where
    "scan known0 issues = (Return None, (known, prs), [])"
    "scanned known0 issues (known, prs)"
proof -
  obtain known prs where f: "fold (\<lambda>gh s. scanIssue s gh) issues (known0, []) = (known, prs)"
    by (cases "fold (\<lambda>gh s. scanIssue s gh) issues (known0, [])")
  have "scanned known0 issues (known, prs)"
    using scanned_fold[of known0 issues] f by simp
  moreover have "scan known0 issues = (Return None, (known, prs), [])"
    by (simp add: scan_eq f)
  ultimately show ?thesis using that by blast
qed

lemma reordering_set: "reordering order \<Longrightarrow> set (order xs) = set xs"
  by (metis reordering_def mset_eq_setD)

lemma reordering_distinct:
  "reordering order \<Longrightarrow> distinct (map fst xs) \<Longrightarrow> distinct (map fst (order xs))"
proof -
  assume r: "reordering order" and d: "distinct (map fst xs)"
  have "mset (map fst (order xs)) = mset (map fst xs)"
    using r by (simp add: reordering_def)
  then show ?thesis using d by (metis mset_eq_imp_distinct_iff)
qed

lemma Congratulator_Do_eq:
  assumes "scan (knownContributors c) issues = (err, (known, prs), tr0)"
    and "welcomeLoop ghc (message c) known (order prs) = (r, known', tr)"
  shows "Congratulator_Do order ghc c issues =
     (case r of None \<Rightarrow> err | Some e \<Rightarrow> Return (Some e), c\<lparr>knownContributors := known'\<rparr>, tr)"
  using assms by (simp add: Congratulator_Do_def split: option.splits)

text \<open>
  Claim C8. Let the snapshot hold each issue number once, and let an author have two or
  more live pull requests in it. Then, whatever the order of the map iteration, whatever
  GitHub answers and however \<open>Congratulator_Do\<close> returns, the author is marked as known
  in the cache afterwards, and no label-add and no comment-post is made for any issue of
  that author.
\<close>

theorem repeat_author_never_welcomed:
  assumes order: "reordering order"
    and numbers: "distinct (map Number issues)"
    and repeat: "2 \<le> length (filter (livePR author) issues)"
  shows "knownContributors (fst (snd (Congratulator_Do order ghc c issues))) author = Some True \<and>
         (\<forall>gi\<in>set issues. \<forall>e\<in>set (snd (snd (Congratulator_Do order ghc c issues))).
            UserLogin gi = author \<longrightarrow> welcomed e \<noteq> Some (sint (Number gi)))"
proof -
  obtain known prs where
    scan: "scan (knownContributors c) issues = (Return None, (known, prs), [])" and
    inv: "scanned (knownContributors c) issues (known, prs)"
    by (rule scan_scanned)
  obtain r known' tr where
    loop: "welcomeLoop ghc (message c) known (order prs) = (r, known', tr)"
    by (cases "welcomeLoop ghc (message c) known (order prs)")
  note Do = Congratulator_Do_eq[where order=order, OF scan loop]
  have known: "known author = Some True"
  proof (rule ccontr)
    assume "known author \<noteq> Some True"
    then have "length (filter (livePR author) issues) \<le> 1"
      using inv by (auto simp: scanned_def split: if_splits)
    with repeat show False by simp
  qed
  have a: "known' author = Some True"
    using welcomeLoop_mono[OF loop known] .
  have b: "welcomed e \<noteq> Some (sint (Number gi))"
    if gi: "gi \<in> set issues" "UserLogin gi = author" and e: "e \<in> set tr" for gi e
  proof
    assume w: "welcomed e = Some (sint (Number gi))"
    from welcomeLoop_calls[OF loop e] obtain p where
      p: "p \<in> set (order prs)" "welcomed e = Some (sint (Number (snd p)))" by blast
    obtain u gj where pj: "p = (u, gj)" by (cases p)
    have "(u, gj) \<in> set prs" using p(1) pj reordering_set[OF order] by simp
    then have gj: "gj \<in> set issues" "UserLogin gj = u" "known u \<noteq> Some True"
      using inv by (auto simp: scanned_def)
    have "sint (Number gj) = sint (Number gi)" using w p(2) pj by simp
    then have "Number gj = Number gi" by (rule signed_word_eqI)
    then have "gj = gi"
      using numbers gi(1) gj(1) by (meson distinct_map inj_onD)
    with gj gi(2) known show False by simp
  qed
  show ?thesis using a b by (simp add: Do)
qed

text \<open>
  Two pull requests of one author and one of another: only the other author is welcomed.
\<close>

theorem repeat_author_never_welcomed_witness:
  "knownContributors
     (fst (snd (Congratulator_Do rev (github [] None) congratulator
        [openPullRequest 1 ''alice'', openPullRequest 2 ''bob'', openPullRequest 3 ''bob'']))) ''bob''
     = Some True \<and>
   snd (snd (Congratulator_Do rev (github [] None) congratulator
        [openPullRequest 1 ''alice'', openPullRequest 2 ''bob'', openPullRequest 3 ''bob''])) =
     [Issues_AddLabelsToIssue 1 [''new-contributor''],
      Issues_CreateComment 1 ''Congrats on your first PR, @alice!'']"
proof -
  let ?issues = "[openPullRequest 1 ''alice'', openPullRequest 2 ''bob'', openPullRequest 3 ''bob'']"
  have order: "reordering (rev :: (string \<times> github_issue) list \<Rightarrow> _)"
    by (simp add: reordering_def)
  have numbers: "distinct (map Number ?issues)"
    by (simp add: openPullRequest_def)
  have repeat: "2 \<le> length (filter (livePR ''bob'') ?issues)"
    by (simp add: openPullRequest_def livePR_def)
  have calls: "snd (snd (Congratulator_Do rev (github [] None) congratulator ?issues)) =
     [Issues_AddLabelsToIssue 1 [''new-contributor''],
      Issues_CreateComment 1 ''Congrats on your first PR, @alice!'']"
    by code_simp
  from repeat_author_never_welcomed[OF order numbers repeat, of "github [] None" congratulator]
    calls
  show ?thesis by simp
qed

text \<open>
  Claim C3, as stated, fails. On a snapshot with the first pull request of \<^verbatim>\<open>alice\<close>,
  with the label-add answered and the comment-post failing, \<open>Congratulator_Do\<close> returns
  the error and the cache has no entry for \<^verbatim>\<open>alice\<close>; a second cycle on the same snapshot
  makes both calls again.
\<close>

theorem comment_failure_author_recorded_counterexample:
  "fst (Congratulator_Do id commentsDown congratulator [openPullRequest 1 ''alice'']) =
     Return (Some (Error ''503 Service Unavailable'')) \<and>
   snd (snd (Congratulator_Do id commentsDown congratulator [openPullRequest 1 ''alice''])) =
     [Issues_AddLabelsToIssue 1 [''new-contributor''],
      Issues_CreateComment 1 ''Congrats on your first PR, @alice!''] \<and>
   knownContributors
     (fst (snd (Congratulator_Do id commentsDown congratulator [openPullRequest 1 ''alice''])))
     ''alice'' = None \<and>
   snd (snd (Congratulator_Do id commentsDown
     (fst (snd (Congratulator_Do id commentsDown congratulator [openPullRequest 1 ''alice''])))
     [openPullRequest 1 ''alice''])) =
     [Issues_AddLabelsToIssue 1 [''new-contributor''],
      Issues_CreateComment 1 ''Congrats on your first PR, @alice!'']"
  by code_simp

text \<open>
  Claim C3, amended. Let the loop reach a candidate that is open and without the tracking
  label, after the candidates before it in the iteration are done without an error, with
  the message rendered, the label-add answered and the comment-post failing. Then
  \<open>Congratulator_Do\<close> returns the error of the comment-post after the two calls, and
  the cache is left as it was when the candidate was reached: the author is not recorded.
\<close>

theorem comment_failure_author_not_recorded:
  assumes order: "reordering order"
    and scan: "scan (knownContributors c) issues = (err, (known, prs), tr0)"
    and reached: "order prs = pre @ (username, ghIssue) # post"
    and before: "welcomeLoop ghc (message c) known pre = (None, known1, tr1)"
    and candidate: "\<not> Closed ghIssue \<and>
                    \<not> list_ex (\<lambda>name. name = ''new-contributor'') (Labels ghIssue)"
    and rendered: "message c (UserLogin ghIssue) = Inr body"
    and labelled: "AddLabelsToIssue ghc (sint (Number ghIssue)) [''new-contributor''] = None"
    and failed: "CreateComment ghc (sint (Number ghIssue)) body = Some e"
  shows "Congratulator_Do order ghc c issues =
           (Return (Some e), c\<lparr>knownContributors := known1\<rparr>,
            tr1 @ [Issues_AddLabelsToIssue (sint (Number ghIssue)) [''new-contributor''],
                   Issues_CreateComment (sint (Number ghIssue)) body]) \<and>
         known1 username \<noteq> Some True"
proof (intro conjI)
  have here: "welcomeLoop ghc (message c) known1 ((username, ghIssue) # post) =
     (Some e, known1,
      [Issues_AddLabelsToIssue (sint (Number ghIssue)) [''new-contributor''],
       Issues_CreateComment (sint (Number ghIssue)) body])"
    using candidate rendered labelled failed by (simp add: Let_def)
  have loop: "welcomeLoop ghc (message c) known (order prs) =
     (Some e, known1,
      tr1 @ [Issues_AddLabelsToIssue (sint (Number ghIssue)) [''new-contributor''],
             Issues_CreateComment (sint (Number ghIssue)) body])"
    by (simp add: reached welcomeLoop_append before here del: welcomeLoop.simps)
  show "Congratulator_Do order ghc c issues =
           (Return (Some e), c\<lparr>knownContributors := known1\<rparr>,
            tr1 @ [Issues_AddLabelsToIssue (sint (Number ghIssue)) [''new-contributor''],
                   Issues_CreateComment (sint (Number ghIssue)) body])"
    using Congratulator_Do_eq[where order=order, OF scan loop] by simp
  have inv: "scanned (knownContributors c) issues (known, prs)"
    using scan scanned_fold[of "knownContributors c" issues] by (simp add: scan_eq)
  have "(username, ghIssue) \<in> set (order prs)"
    unfolding reached by simp
  then have "(username, ghIssue) \<in> set prs"
    unfolding reordering_set[OF order] .
  then have unknown: "known username \<noteq> Some True"
    using inv by (auto simp: scanned_def)
  have "distinct (map fst (order prs))"
    using inv by (intro reordering_distinct[OF order]) (simp add: scanned_def)
  then have "username \<notin> fst ` set pre"
    unfolding reached by auto
  then show "known1 username \<noteq> Some True"
    using welcomeLoop_marks[OF before, of username] unknown by blast
qed

text \<open>
  The pull requests of \<^verbatim>\<open>carol\<close>, who is welcomed, and of \<^verbatim>\<open>alice\<close>, for whom the
  comment-post fails: the error is returned, \<^verbatim>\<open>carol\<close> is recorded and \<^verbatim>\<open>alice\<close> is not.
\<close>

theorem comment_failure_author_not_recorded_witness:
  "Congratulator_Do id (commentsDownFor 1) congratulator
       [openPullRequest 2 ''carol'', openPullRequest 1 ''alice''] =
     (Return (Some (Error ''503 Service Unavailable'')),
      congratulator\<lparr>knownContributors := [''carol'' \<mapsto> True]\<rparr>,
      [Issues_AddLabelsToIssue 2 [''new-contributor''],
       Issues_CreateComment 2 ''Congrats on your first PR, @carol!'',
       Issues_AddLabelsToIssue 1 [''new-contributor''],
       Issues_CreateComment 1 ''Congrats on your first PR, @alice!'']) \<and>
   [''carol'' \<mapsto> True] ''alice'' \<noteq> Some True"
proof -
  let ?carol = "openPullRequest 2 ''carol''"
  let ?alice = "openPullRequest 1 ''alice''"
  let ?body = "''Congrats on your first PR, @alice!''"
  have order: "reordering (id :: (string \<times> github_issue) list \<Rightarrow> _)"
    by (simp add: reordering_def)
  have scan: "scan (knownContributors congratulator) [?carol, ?alice] =
      (Return None, (Map.empty, [(''carol'', ?carol), (''alice'', ?alice)]), [])"
    by (simp add: scan_def scanIssue_def Let_def congratulator_def openPullRequest_def)
  have reached: "id [(''carol'', ?carol), (''alice'', ?alice)] =
      [(''carol'', ?carol)] @ (''alice'', ?alice) # []"
    by simp
  have before: "welcomeLoop (commentsDownFor 1) (message congratulator) Map.empty
      [(''carol'', ?carol)] =
      (None, [''carol'' \<mapsto> True],
       [Issues_AddLabelsToIssue 2 [''new-contributor''],
        Issues_CreateComment 2 ''Congrats on your first PR, @carol!''])"
    by (simp add: commentsDownFor_def github_def congratulator_def openPullRequest_def)
  have candidate: "\<not> Closed ?alice \<and>
      \<not> list_ex (\<lambda>name. name = ''new-contributor'') (Labels ?alice)"
    by (simp add: openPullRequest_def)
  have rendered: "message congratulator (UserLogin ?alice) = Inr ?body"
    by (simp add: congratulator_def openPullRequest_def)
  have labelled:
    "AddLabelsToIssue (commentsDownFor 1) (sint (Number ?alice)) [''new-contributor''] = None"
    by (simp add: commentsDownFor_def github_def)
  have failed: "CreateComment (commentsDownFor 1) (sint (Number ?alice)) ?body =
      Some (Error ''503 Service Unavailable'')"
    by (simp add: commentsDownFor_def github_def openPullRequest_def)
  note inst = comment_failure_author_not_recorded
    [OF order scan reached before candidate rendered labelled failed]
  show ?thesis
    using inst by (simp add: openPullRequest_def id_def)
qed

section \<open>Properties of the bot loop\<close>

lemma doTasksFrom_append:
  "doTasksFrom (xs @ ys) w =
     (case doTasksFrom xs w of
        (Return None, w') \<Rightarrow> doTasksFrom ys w'
      | (r, w') \<Rightarrow> (r, w'))"
proof (induction xs arbitrary: w)
  case Nil
  then show ?case by simp
next
  case (Cons t xs)
  obtain r w' where t: "t w = (r, w')" by (cases "t w")
  show ?case
  proof (cases "r = Return None")
    case True
    then show ?thesis using t Cons.IH[of w'] by simp
  next
    case False
    then show ?thesis using t by (cases r) (auto split: option.splits)
  qed
qed

text \<open>
  Claim C1, as stated, fails. With a first task that returns an error and a second task
  registered after it, \<open>doTasks\<close> returns the error and the second task has not run.
  \<open>Run\<close> logs the error in each of two cycles, and the second task runs in neither.
\<close>

theorem failing_task_blocks_later_tasks_counterexample:
  "doTasks (railsBot [recordingTask 0 (Some (Error ''boom'')), recordingTask 1 None]) [] =
     (Return (Some (Error ''boom'')), [0]) \<and>
   Run 2 quietCorpus
     (railsBot [recordingTask 0 (Some (Error ''boom'')), recordingTask 1 None]) [] =
     Some (Return ([0, 0],
       [LogLoaded, LogError (Error ''boom''), LogRan, LogGotUpdate,
        LogError (Error ''boom''), LogRan, LogGotUpdate]))"
  by code_simp

text \<open>
  Claim C1, amended. Let the tasks registered before \<open>t\<close> return nil in this cycle,
  in registration order, and let \<open>t\<close> return an error. Then \<open>doTasks\<close> returns that
  error with the world as \<open>t\<close> left it, whatever is registered after \<open>t\<close>: the later
  tasks are not invoked in this cycle. \<open>Run\<close> logs the error and goes on to the
  synchronisation and to the next cycle.
\<close>

theorem doTasks_returns_first_error:
  assumes registered: "tasks b = before @ t # later"
    and earlier: "doTasksFrom before w = (Return None, w1)"
    and fails: "t w1 = (Return (Some err), w2)"
  shows "doTasks b w = (Return (Some err), w2) \<and>
         doTasks b w = doTasks (b\<lparr>tasks := before @ [t]\<rparr>) w \<and>
         runTasks b (w, lg) = Return (w2, lg @ [LogError err, LogRan]) \<and>
         runTicks (Suc n) env b (w, lg) =
           (case syncLoop env b (w2, lg @ [LogError err, LogRan]) of
              Some (Return st) \<Rightarrow> runTicks n env b st
            | other \<Rightarrow> other)"
proof -
  have a: "doTasksFrom (before @ t # rest) w = (Return (Some err), w2)" for rest
    using earlier fails by (simp add: doTasksFrom_append)
  have b: "doTasks b w = (Return (Some err), w2)"
    using a[of later] registered by (simp add: doTasks_def)
  have c: "doTasks (b\<lparr>tasks := before @ [t]\<rparr>) w = (Return (Some err), w2)"
    using a[of "[]"] by (simp add: doTasks_def)
  have d: "runTasks b (w, lg) = Return (w2, lg @ [LogError err, LogRan])"
    by (simp add: runTasks_def b)
  show ?thesis by (simp add: b c d)
qed

text \<open>Three tasks, the second of which fails: the third does not run.\<close>

theorem doTasks_returns_first_error_witness:
  "doTasks (railsBot [recordingTask 0 None, recordingTask 1 (Some (Error ''boom'')),
                      recordingTask 2 None]) [] =
     (Return (Some (Error ''boom'')), [0, 1]) \<and>
   runTasks (railsBot [recordingTask 0 None, recordingTask 1 (Some (Error ''boom'')),
                       recordingTask 2 None]) ([], []) =
     Return ([0, 1], [LogError (Error ''boom''), LogRan]) \<and>
   runTicks 1 quietCorpus
      (railsBot [recordingTask 0 None, recordingTask 1 (Some (Error ''boom'')),
                 recordingTask 2 None]) ([], []) =
     Some (Return ([0, 1], [LogError (Error ''boom''), LogRan, LogGotUpdate]))"
proof -
  let ?b = "railsBot [recordingTask 0 None, recordingTask 1 (Some (Error ''boom'')),
                      recordingTask 2 None]"
  have registered: "tasks ?b = [recordingTask 0 None] @
      recordingTask 1 (Some (Error ''boom'')) # [recordingTask 2 None]"
    by (simp add: railsBot_def)
  have earlier: "doTasksFrom [recordingTask 0 None] [] = (Return None, [0])"
    by (simp add: recordingTask_def)
  have fails: "recordingTask 1 (Some (Error ''boom'')) [0] = (Return (Some (Error ''boom'')), [0, 1])"
    by (simp add: recordingTask_def)
  have sync: "syncLoop quietCorpus ?b ([0, 1], [LogError (Error ''boom''), LogRan]) =
      Some (Return ([0, 1], [LogError (Error ''boom''), LogRan, LogGotUpdate]))"
    by (simp add: syncLoop.simps quietCorpus_def)
  note inst = doTasks_returns_first_error [OF registered earlier fails, of "[]" 0 quietCorpus]
  show ?thesis using inst sync by simp
qed

section \<open>Properties of the refresh loop\<close>

lemma unloaded_failed: "unloaded h \<Longrightarrow> unloaded (h @ [Fetch_failed e])"
proof -
  assume "unloaded h"
  then obtain errs where "h = map Fetch_failed errs" by (auto simp: unloaded_def)
  then have "h @ [Fetch_failed e] = map Fetch_failed (errs @ [e])" by simp
  then show ?thesis unfolding unloaded_def by blast
qed

lemma unloaded_stored: "unloaded h \<Longrightarrow> loaded_once (h @ [Stored names])"
  by (auto simp: unloaded_def loaded_once_def)

lemma loaded_once_sent: "loaded_once h \<Longrightarrow> signalled (h @ [Sent])"
proof -
  assume "loaded_once h"
  then obtain errs names where "h = map Fetch_failed errs @ [Stored names]"
    by (auto simp: loaded_once_def)
  then have "h @ [Sent] = map Fetch_failed errs @ Stored names # Sent # []" by simp
  then show ?thesis unfolding signalled_def by fastforce
qed

lemma recv_Some:
  "recv (Some q) = Some ch \<Longrightarrow> buffered q \<le> 1 \<Longrightarrow>
   \<exists>q'. ch = Some q' \<and> closed q' = closed q \<and> buffered q' \<le> 1 \<and> (0 < buffered q \<or> closed q)"
  by (auto simp: recv_def split: if_splits)

lemma signalled_more:
  assumes "signalled h" and "e \<noteq> Sent" and "e \<noteq> Read_allowlist False"
  shows "signalled (h @ [e])"
proof -
  from assms(1) obtain errs names rest where
    h: "h = map Fetch_failed errs @ Stored names # Sent # rest"
      "Sent \<notin> set rest" "Read_allowlist False \<notin> set rest"
    by (auto simp: signalled_def)
  have "h @ [e] = map Fetch_failed errs @ Stored names # Sent # (rest @ [e])"
    using h(1) by simp
  moreover have "Sent \<notin> set (rest @ [e])" "Read_allowlist False \<notin> set (rest @ [e])"
    using h(2,3) assms(2,3) by auto
  ultimately show ?thesis unfolding signalled_def by blast
qed

lemma stages_StartFetch: "contributors c = None \<Longrightarrow> stages (StartFetch c)"
  by (simp add: stages_def StartFetch_def make_chan_def unloaded_def)

lemma stages_loader_step:
  assumes "stages s"
  shows "stages (loader_step fetched done s)"
proof -
  from assms obtain q where q: "contributorsLoaded (checker s) = Some q" "buffered q \<le> 1"
    by (auto simp: stages_def)
  show ?thesis
  proof (cases "loader_at s")
    case AtFetch
    show ?thesis
    proof (cases fetched)
      case (Inl err)
      then show ?thesis
        using assms AtFetch q
        by (auto simp: stages_def loader_step_def unloaded_failed signalled_more
            split: if_splits)
    next
      case (Inr names)
      then show ?thesis
        using assms AtFetch q
        by (auto simp: stages_def loader_step_def unloaded_stored signalled_more
            split: if_splits)
    qed
  next
    case AtSend
    then show ?thesis
      using assms q
      by (auto simp: stages_def loader_step_def send_def loaded_once_sent)
  next
    case AtClose
    then show ?thesis
      using assms q
      by (auto simp: stages_def loader_step_def close_chan_def signalled_more)
  next
    case AtSelect
    then show ?thesis
      using assms q by (auto simp: stages_def loader_step_def)
  next
    case Exited
    then show ?thesis
      using assms by (simp add: loader_step_def)
  next
    case (Crashed p)
    then show ?thesis
      using assms by (simp add: loader_step_def)
  qed
qed

lemma stages_checker_step:
  assumes "stages s"
  shows "stages (checker_step s)"
proof -
  from assms obtain q where q: "contributorsLoaded (checker s) = Some q" "buffered q \<le> 1"
    by (auto simp: stages_def)
  show ?thesis
  proof (cases "checker_at s")
    case AtReceive
    show ?thesis
    proof (cases "recv (contributorsLoaded (checker s))")
      case None
      then show ?thesis using assms AtReceive by (simp add: checker_step_def)
    next
      case (Some ch)
      with q recv_Some[of q ch] obtain q' where
        ch: "ch = Some q'" "closed q' = closed q" "buffered q' \<le> 1" and
        open_or_full: "0 < buffered q \<or> closed q"
        by auto
      show ?thesis
        using assms AtReceive Some q ch open_or_full
        by (cases "loader_at s")
           (auto simp: stages_def checker_step_def signalled_more split: if_splits)
    qed
  next
    case AtRead
    then show ?thesis
      using assms q
      by (cases "loader_at s")
         (auto simp: stages_def checker_step_def signalled_more split: if_splits)
  qed
qed

lemma stages_run: "stages s \<Longrightarrow> stages (run acts s)"
proof (induction acts arbitrary: s)
  case Nil
  then show ?case by simp
next
  case (Cons a acts)
  then show ?case
    by (cases a) (simp_all add: stages_loader_step stages_checker_step)
qed

lemma no_Sent_filter: "Sent \<notin> set h \<Longrightarrow> filter (\<lambda>e. e = Sent) h = []"
  by (induction h) auto

lemma unloaded_facts:
  assumes "unloaded h"
  shows "Sent \<notin> set h" "Stored names \<notin> set h" "Read_allowlist False \<notin> set h"
  using assms by (auto simp: unloaded_def)

lemma loaded_once_facts:
  assumes "loaded_once h"
  shows "Sent \<notin> set h" "Read_allowlist False \<notin> set h"
  using assms by (auto simp: loaded_once_def)

lemma signalled_facts:
  assumes "signalled h"
  shows "filter (\<lambda>e. e = Sent) h = [Sent]"
    and "Sent \<in> set h"
    and "Read_allowlist False \<notin> set h"
    and "h = pre @ Sent # post \<Longrightarrow> \<exists>errs names. pre = map Fetch_failed errs @ [Stored names]"
proof -
  from assms obtain errs names rest where
    h: "h = map Fetch_failed errs @ Stored names # Sent # rest"
      "Sent \<notin> set rest" "Read_allowlist False \<notin> set rest"
    by (auto simp: signalled_def)
  have front: "Sent \<notin> set (map Fetch_failed errs @ [Stored names])" by auto
  show "filter (\<lambda>e. e = Sent) h = [Sent]"
    using h(2) no_Sent_filter[of rest] no_Sent_filter[of "map Fetch_failed errs"]
    by (simp add: h(1) image_iff)
  show "Sent \<in> set h" by (simp add: h(1))
  show "Read_allowlist False \<notin> set h" using h(3) by (auto simp: h(1))
  assume "h = pre @ Sent # post"
  then have "(map Fetch_failed errs @ [Stored names]) @ Sent # rest = pre @ Sent # post"
    using h(1) by simp
  then have "map Fetch_failed errs @ [Stored names] = pre"
    using append_Cons_eq_iff[OF front h(2)] by blast
  then show "\<exists>errs names. pre = map Fetch_failed errs @ [Stored names]" by blast
qed

lemma stages_history:
  assumes "stages s"
  shows "(loader_at s = AtFetch \<and> \<not> sentContributors s \<and> unloaded (history s)) \<or>
         (loader_at s = AtSend \<and> loaded_once (history s)) \<or>
         (loader_at s \<noteq> AtSend \<and> signalled (history s))"
  using assms by (cases "loader_at s") (auto simp: stages_def split: if_splits)

lemma stages_channel:
  assumes "stages s"
  shows "(recv (contributorsLoaded (checker s)) \<noteq> None \<longrightarrow> contributors (checker s) \<noteq> None) \<and>
         (loader_at s = AtSend \<longrightarrow> (\<exists>ch. send (contributorsLoaded (checker s)) = Return ch)) \<and>
         (\<forall>p. loader_at s \<noteq> Crashed p)"
  using assms
  by (cases "loader_at s") (auto simp: stages_def recv_def send_def split: if_splits)

lemma checkIssue_waits:
  "recv (contributorsLoaded c) = None \<Longrightarrow> \<not> NotExist gh \<Longrightarrow> PullRequest gh \<Longrightarrow>
   \<not> Closed gh \<Longrightarrow> signedCLAPRs c (Number gh) = None \<Longrightarrow>
   checkIssue ghc c gh = (Blocked, c, [])"
  by (simp add: checkIssue_def)

text \<open>
  Claim C9. Start from a checker whose allowlist is nil, as \<^verbatim>\<open>NewCLAChecker\<close> makes it,
  call \<open>StartFetch\<close>, and let the refresh loop and the checker take steps in any order,
  with any fetch results. Then at every moment: the signal has been sent at most once;
  where it has been sent, what went before it is a run of failed fetches and then one
  stored allowlist, the first; once an allowlist is stored and the loop has taken its
  next step, the signal has been sent, and that send neither waits nor panics; the loop
  never ends in a panic of a second send or close; the checker has never read the nil
  allowlist; a receive on the channel can go through only when an allowlist is loaded;
  and while it cannot, \<open>checkIssue\<close> on a pull request that needs the allowlist waits
  at the receive, with no call made.
\<close>

theorem readiness_signalled_once:
  assumes "contributors c = None"
  shows "let s = run acts (StartFetch c) in
     length (filter (\<lambda>e. e = Sent) (history s)) \<le> 1 \<and>
     (\<forall>pre post. history s = pre @ Sent # post \<longrightarrow>
        (\<exists>errs names. pre = map Fetch_failed errs @ [Stored names])) \<and>
     ((\<exists>names. Stored names \<in> set (history s)) \<and> loader_at s \<noteq> AtSend \<longrightarrow>
        Sent \<in> set (history s)) \<and>
     (loader_at s = AtSend \<longrightarrow> (\<exists>ch. send (contributorsLoaded (checker s)) = Return ch)) \<and>
     (\<forall>p. loader_at s \<noteq> Crashed p) \<and>
     Read_allowlist False \<notin> set (history s) \<and>
     (recv (contributorsLoaded (checker s)) \<noteq> None \<longrightarrow> contributors (checker s) \<noteq> None) \<and>
     (recv (contributorsLoaded (checker s)) = None \<and> \<not> NotExist gh \<and> PullRequest gh \<and>
      \<not> Closed gh \<and> signedCLAPRs (checker s) (Number gh) = None \<longrightarrow>
        checkIssue ghc (checker s) gh = (Blocked, checker s, []))"
proof -
  define s where "s = run acts (StartFetch c)"
  have st: "stages s"
    unfolding s_def using assms by (intro stages_run stages_StartFetch)
  note ch = stages_channel[OF st]
  have once: "length (filter (\<lambda>e. e = Sent) (history s)) \<le> 1"
    using stages_history[OF st]
    by (auto simp: no_Sent_filter unloaded_facts loaded_once_facts signalled_facts(1))
  have first: "\<forall>pre post. history s = pre @ Sent # post \<longrightarrow>
        (\<exists>errs names. pre = map Fetch_failed errs @ [Stored names])"
  proof (intro allI impI)
    fix pre post
    assume h: "history s = pre @ Sent # post"
    then have "Sent \<in> set (history s)" by simp
    then have "signalled (history s)"
      using stages_history[OF st] unloaded_facts(1) loaded_once_facts(1) by blast
    then show "\<exists>errs names. pre = map Fetch_failed errs @ [Stored names]"
      using h by (rule signalled_facts(4))
  qed
  have sent: "(\<exists>names. Stored names \<in> set (history s)) \<and> loader_at s \<noteq> AtSend \<longrightarrow>
        Sent \<in> set (history s)"
    using stages_history[OF st] unloaded_facts(2) signalled_facts(2) by blast
  have reads: "Read_allowlist False \<notin> set (history s)"
    using stages_history[OF st] unloaded_facts(3) loaded_once_facts(2) signalled_facts(3)
    by blast
  have waits: "recv (contributorsLoaded (checker s)) = None \<and> \<not> NotExist gh \<and> PullRequest gh \<and>
      \<not> Closed gh \<and> signedCLAPRs (checker s) (Number gh) = None \<longrightarrow>
        checkIssue ghc (checker s) gh = (Blocked, checker s, [])"
    using checkIssue_waits by blast
  show ?thesis
    unfolding Let_def s_def[symmetric]
    using once first sent ch reads waits by blast
qed

text \<open>
  On \<open>schedule\<close> the loop fails once, loads twice and signals once, and the checker's
  turns before the signal change nothing.
\<close>

theorem readiness_signalled_once_witness:
  "contributors (NewCLAChecker ''https://example.com/cla'' :: (unit, unit) CLAChecker) = None \<and>
   history (run schedule (StartFetch (NewCLAChecker ''https://example.com/cla'' :: (unit, unit) CLAChecker))) =
     [Fetch_failed (Error ''timeout''), Stored [''alice''], Sent, Received,
      Read_allowlist True, Closed_channel, Received, Stored [''alice'', ''bob''],
      Read_allowlist True, Received] \<and>
   length (filter (\<lambda>e. e = Sent)
     (history (run schedule (StartFetch (NewCLAChecker ''https://example.com/cla'' :: (unit, unit) CLAChecker)))))
     \<le> 1 \<and>
   Read_allowlist False \<notin> set
     (history (run schedule (StartFetch (NewCLAChecker ''https://example.com/cla'' :: (unit, unit) CLAChecker))))"
proof -
  let ?c = "NewCLAChecker ''https://example.com/cla'' :: (unit, unit) CLAChecker"
  have new: "contributors ?c = None"
    by (simp add: NewCLAChecker_def)
  have h: "history (run schedule (StartFetch ?c)) =
     [Fetch_failed (Error ''timeout''), Stored [''alice''], Sent, Received,
      Read_allowlist True, Closed_channel, Received, Stored [''alice'', ''bob''],
      Read_allowlist True, Received]"
    by code_simp
  from readiness_signalled_once[OF new, of schedule] new h
  show ?thesis unfolding Let_def by blast
qed

end
